theory Spec2Isabelle
  imports Main "HOL-Library.Word" "HOL-Library.AList"
begin

unbundle bit_operations_syntax

section \<open>JavaScript values, errors and outcomes\<close>

text \<open>
  The class \<open>Struct\<close> compiles a schema into a byte layout (\<open>parseSchema\<close>) and converts
  records to buffers (\<open>toBuffer\<close>) and back (\<open>toObject\<close>).

  A thrown exception is a value: the three constructors of \<open>error\<close> are the three
  exception classes the code and Node's \<open>Buffer\<close> throw, each with its message. For the
  errors that \<open>Buffer\<close> itself throws the string is Node's error code, not its message.

  \<open>Unmodelled\<close> marks the inputs at which the code leaves the fragment of JavaScript that
  is embedded here (implicit coercion of a non-number to a number, members inherited from
  \<open>Object.prototype\<close>, method names that \<open>parseSchema\<close> never produces). It is neither a
  return nor a throw, and no theorem below counts it as either.
\<close>

datatype error = Error string | TypeError string | RangeError string

datatype 'a outcome = Ok 'a | Throw error | Unmodelled

text \<open>
  Record values. A JavaScript number is an \<open>int\<close>: the numbers of this embedding are the
  integral ones. A string is the list of its UTF-8 bytes. An object is the list of its own
  properties in enumeration order.
\<close>

datatype jsval =
    JUndefined
  | JNull
  | JBool bool
  | JNumber int
  | JBigInt int
  | JString string
  | JObject "(string \<times> jsval) list"

fun typeof :: "jsval \<Rightarrow> string" where
  "typeof JUndefined = ''undefined''"
| "typeof JNull = ''object''"
| "typeof (JBool b) = ''boolean''"
| "typeof (JNumber n) = ''number''"
| "typeof (JBigInt n) = ''bigint''"
| "typeof (JString s) = ''string''"
| "typeof (JObject kvs) = ''object''"

text \<open>Truthiness, as \<open>if (v)\<close> and \<open>!v\<close> read it.\<close>

fun truthy :: "jsval \<Rightarrow> bool" where
  "truthy JUndefined = False"
| "truthy JNull = False"
| "truthy (JBool b) = b"
| "truthy (JNumber n) = (n \<noteq> 0)"
| "truthy (JBigInt n) = (n \<noteq> 0)"
| "truthy (JString s) = (s \<noteq> [])"
| "truthy (JObject kvs) = True"

text \<open>
  The string members that every plain object inherits from \<open>Object.prototype\<close>: the
  \<open>in\<close> operator and a property read find them although they are not own properties.
\<close>

definition object_prototype_members :: "string list" where
  "object_prototype_members =
     [''constructor'', ''__defineGetter__'', ''__defineSetter__'', ''hasOwnProperty'',
      ''__lookupGetter__'', ''__lookupSetter__'', ''isPrototypeOf'',
      ''propertyIsEnumerable'', ''toString'', ''valueOf'', ''__proto__'',
      ''toLocaleString'']"

subsection \<open>Strings\<close>

definition startsWith :: "string \<Rightarrow> string \<Rightarrow> bool" where
  "startsWith s p = (take (length p) s = p)"

fun includes_str :: "string \<Rightarrow> string \<Rightarrow> bool" where
  "includes_str [] sub = (sub = [])"
| "includes_str (c # s) sub = (take (length sub) (c # s) = sub \<or> includes_str s sub)"

definition is_digit :: "char \<Rightarrow> bool" where
  "is_digit c = (48 \<le> (of_char c :: nat) \<and> (of_char c :: nat) \<le> 57)"

definition digit_val :: "char \<Rightarrow> nat" where
  "digit_val c = of_char c - 48"

text \<open>\<open>parseInt(s, 10)\<close> on a string of decimal digits.\<close>

definition parseInt :: "string \<Rightarrow> nat" where
  "parseInt ds = foldl (\<lambda>n c. 10 * n + digit_val c) 0 ds"

text \<open>Template literals print a number in decimal.\<close>

fun show_nat :: "nat \<Rightarrow> string" where
  "show_nat n =
     (if n < 10 then [char_of (48 + n)]
      else show_nat (n div 10) @ [char_of (48 + n mod 10)])"

declare show_nat.simps [simp del]

definition show_int :: "int \<Rightarrow> string" where
  "show_int i = (if i < 0 then CHR ''-'' # show_nat (nat (- i)) else show_nat (nat i))"

subsection \<open>The 32-bit integer operators\<close>

text \<open>
  \<open><<\<close>, \<open>>>\<close>, \<open>&\<close>, \<open>|\<close> and \<open>~\<close> convert their operands to signed 32-bit integers;
  a shift uses the low five bits of its count.
\<close>

definition ToInt32 :: "int \<Rightarrow> int" where
  "ToInt32 x = signed_take_bit 31 x"

definition js_shl :: "int \<Rightarrow> int \<Rightarrow> int" where
  "js_shl a b = ToInt32 (push_bit (nat (b mod 32)) (ToInt32 a))"

definition js_sar :: "int \<Rightarrow> int \<Rightarrow> int" where
  "js_sar a b = drop_bit (nat (b mod 32)) (ToInt32 a)"

definition js_and :: "int \<Rightarrow> int \<Rightarrow> int" where
  "js_and a b = ToInt32 a AND ToInt32 b"

definition js_or :: "int \<Rightarrow> int \<Rightarrow> int" where
  "js_or a b = ToInt32 a OR ToInt32 b"

definition js_not :: "int \<Rightarrow> int" where
  "js_not a = NOT (ToInt32 a)"

text \<open>\<open>BigInt.asIntN(bits, v)\<close>: \<open>v\<close> modulo \<open>2 ^ bits\<close>, read as two's complement.\<close>

definition asIntN :: "nat \<Rightarrow> int \<Rightarrow> int" where
  "asIntN bits v = (if bits = 0 then 0 else signed_take_bit (bits - 1) v)"

section \<open>Layouts\<close>

text \<open>
  \<open>SchemaFieldType\<close> and the class itself. The type of a field is a type name
  (\<open>'UInt8'\<close>, \<open>'string'\<close>, ...) or a nested \<open>Struct\<close>. \<open>schema\<close> lists the fields in the
  enumeration order of the object \<open>this.schema\<close>; \<open>position\<close> is optional.
\<close>

datatype struct = Struct (schema: "(string \<times> field) list") (struct_size: nat)
  and field =
    Field (ftype: ftype) (fsize: nat) (offset: nat) (isBits: bool) (position: "nat option")
  and ftype = TypeName string | TypeStruct struct

text \<open>
  An entry of \<open>StructSchemaInterface\<close>: a string token, a \<open>FieldInterface\<close>
  \<open>{ type: 'string', size }\<close>, or a \<open>Struct\<close>. A schema is the list of its entries in
  enumeration order; the byte length of a text field is a natural number.
\<close>

datatype schema_entry = Token string | FieldInterface nat | Nested struct

text \<open>\<open>ParseFieldInterface\<close>; an absent \<open>isBits\<close> reads as false.\<close>

record parse_field =
  ptype :: ftype
  psize :: nat
  pisBits :: bool

record accumulator =
  bits :: nat
  bytes :: nat

subsection \<open>Parsing tokens\<close>

text \<open>The match of \<open>/^(Int8|UInt8):(\d+)$/\<close>: the type name and the digits.\<close>

definition all_digits :: "string \<Rightarrow> bool" where
  "all_digits ds = (ds \<noteq> [] \<and> list_all is_digit ds)"

definition match_bitfield :: "string \<Rightarrow> (string \<times> string) option" where
  "match_bitfield tok =
     (if take 5 tok = ''Int8:'' \<and> all_digits (drop 5 tok) then Some (''Int8'', drop 5 tok)
      else if take 6 tok = ''UInt8:'' \<and> all_digits (drop 6 tok)
        then Some (''UInt8'', drop 6 tok)
      else None)"

definition parseBitField :: "string \<Rightarrow> parse_field outcome" where
  "parseBitField tok =
     (case match_bitfield tok of
        None \<Rightarrow> Throw (Error (''Invalid bit field format: '' @ tok))
      | Some (t, ds) \<Rightarrow> Ok \<lparr>ptype = TypeName t, psize = parseInt ds, pisBits = True\<rparr>)"

definition typeSizes :: "(string \<times> nat) list" where
  "typeSizes =
     [(''Int8'', 1), (''UInt8'', 1),
      (''Int16LE'', 2), (''Int16BE'', 2), (''UInt16LE'', 2), (''UInt16BE'', 2),
      (''Int32LE'', 4), (''Int32BE'', 4), (''UInt32LE'', 4), (''UInt32BE'', 4),
      (''BigInt64LE'', 8), (''BigInt64BE'', 8), (''BigUInt64LE'', 8), (''BigUInt64BE'', 8)]"

text \<open>
  \<open>typeSizes[type]\<close> is truthy for the fourteen own keys and for the inherited members of
  the object literal; for the latter the size is not a number.
\<close>

definition parsePrimitiveField :: "string \<Rightarrow> parse_field outcome" where
  "parsePrimitiveField t =
     (case map_of typeSizes t of
        Some n \<Rightarrow> Ok \<lparr>ptype = TypeName t, psize = n, pisBits = False\<rparr>
      | None \<Rightarrow>
          if t \<in> set object_prototype_members then Unmodelled
          else Throw (TypeError (''Unsupported primitive type: '' @ t)))"

definition parseField :: "schema_entry \<Rightarrow> parse_field outcome" where
  "parseField e =
     (case e of
        Nested s \<Rightarrow> Ok \<lparr>ptype = TypeStruct s, psize = struct_size s, pisBits = False\<rparr>
      | Token t \<Rightarrow>
          if includes_str t '':'' then parseBitField t else parsePrimitiveField t
      | FieldInterface n \<Rightarrow> Ok \<lparr>ptype = TypeName ''string'', psize = n, pisBits = False\<rparr>)"

subsection \<open>The layout pass\<close>

text \<open>
  The pass mutates \<open>this.schema\<close> and the accumulator; both are threaded through.
  Assigning a property replaces the value of an existing key in place and appends a new
  key, which is \<open>AList.update\<close>.
\<close>

type_synonym layout_state = "(string \<times> field) list \<times> accumulator"

definition processBitfield :: "string \<Rightarrow> layout_state \<Rightarrow> parse_field \<Rightarrow> layout_state" where
  "processBitfield name st fld =
     (let (sch, acc) = st;
          nextTotalBits = bits acc + psize fld;
          acc1 = (if nextTotalBits > 8 then \<lparr>bits = 0, bytes = bytes acc + 1\<rparr> else acc);
          sch1 = AList.update name
                   (Field (ptype fld) (psize fld) (bytes acc1) True (Some (bits acc1))) sch
      in (sch1, acc1\<lparr>bits := bits acc1 + psize fld\<rparr>))"

text \<open>
  One iteration of the loop of \<open>parseSchema\<close>. Assigning to the key \<open>__proto__\<close> of
  \<open>this.schema\<close> sets its prototype instead of a property.
\<close>

definition parseSchema_step ::
  "string \<times> schema_entry \<Rightarrow> layout_state \<Rightarrow> layout_state outcome" where
  "parseSchema_step ne st =
     (let (fieldName, entry) = ne; (sch, acc) = st in
      case parseField entry of
        Throw e \<Rightarrow> Throw e
      | Unmodelled \<Rightarrow> Unmodelled
      | Ok fieldObject \<Rightarrow>
          if fieldName = ''__proto__'' then Unmodelled
          else if \<not> pisBits fieldObject then
            (let acc1 = (if bits acc > 0 then \<lparr>bits = 0, bytes = bytes acc + 1\<rparr> else acc);
                 sch1 = AList.update fieldName
                          (Field (ptype fieldObject) (psize fieldObject) (bytes acc1) False None)
                          sch
             in Ok (sch1, \<lparr>bits = 0, bytes = bytes acc1 + psize fieldObject\<rparr>))
          else Ok (processBitfield fieldName st fieldObject))"

fun parseSchema_loop ::
  "(string \<times> schema_entry) list \<Rightarrow> layout_state \<Rightarrow> layout_state outcome" where
  "parseSchema_loop [] st = Ok st"
| "parseSchema_loop (ne # rest) st =
     (case parseSchema_step ne st of
        Ok st1 \<Rightarrow> parseSchema_loop rest st1
      | Throw e \<Rightarrow> Throw e
      | Unmodelled \<Rightarrow> Unmodelled)"

text \<open>\<open>parseSchema\<close> returns the size; the schema it built is returned with it.\<close>

definition parseSchema ::
  "(string \<times> schema_entry) list \<Rightarrow> ((string \<times> field) list \<times> nat) outcome" where
  "parseSchema sch =
     (case parseSchema_loop sch ([], \<lparr>bits = 0, bytes = 0\<rparr>) of
        Ok (flds, acc) \<Rightarrow> Ok (flds, if bits acc > 0 then bytes acc + 1 else bytes acc)
      | Throw e \<Rightarrow> Throw e
      | Unmodelled \<Rightarrow> Unmodelled)"

text \<open>The constructor.\<close>

definition new_Struct :: "(string \<times> schema_entry) list \<Rightarrow> struct outcome" where
  "new_Struct sch =
     (case parseSchema sch of
        Ok (flds, n) \<Rightarrow> Ok (Struct flds n)
      | Throw e \<Rightarrow> Throw e
      | Unmodelled \<Rightarrow> Unmodelled)"

section \<open>Node's Buffer\<close>

text \<open>
  A \<open>Buffer\<close> is a \<open>Uint8Array\<close>: a list of bytes. The operations below are the ones the
  class calls, with the range checks Node documents for them.
\<close>

type_synonym buffer = "8 word list"

definition alloc :: "nat \<Rightarrow> buffer" where
  "alloc n = replicate n 0"

text \<open>\<open>buffer[i]\<close> is \<open>undefined\<close> out of range; a bit operator reads \<open>undefined\<close> as 0.\<close>

definition index :: "buffer \<Rightarrow> nat \<Rightarrow> int option" where
  "index buf i = (if i < length buf then Some (uint (buf ! i)) else None)"

definition operand :: "int option \<Rightarrow> int" where
  "operand v = (case v of None \<Rightarrow> 0 | Some x \<Rightarrow> x)"

text \<open>\<open>buffer[i] = v\<close> stores \<open>v\<close> modulo 256 and does nothing out of range.\<close>

definition store :: "buffer \<Rightarrow> nat \<Rightarrow> int \<Rightarrow> buffer" where
  "store buf i v = (if i < length buf then buf[i := word_of_int v] else buf)"

definition overwrite :: "buffer \<Rightarrow> nat \<Rightarrow> buffer \<Rightarrow> buffer" where
  "overwrite buf off src = take off buf @ src @ drop (off + length src) buf"

text \<open>\<open>buffer.set(source, offset)\<close>.\<close>

definition buffer_set :: "buffer \<Rightarrow> buffer \<Rightarrow> nat \<Rightarrow> buffer outcome" where
  "buffer_set buf src off =
     (if off + length src > length buf then Throw (RangeError ''offset is out of bounds'')
      else Ok (overwrite buf off src))"

text \<open>\<open>buffer.subarray(start, end)\<close> clamps both indices to the length.\<close>

definition subarray :: "buffer \<Rightarrow> nat \<Rightarrow> nat \<Rightarrow> buffer" where
  "subarray buf start fin = drop start (take fin buf)"

definition boundsError :: "nat \<Rightarrow> nat \<Rightarrow> error" where
  "boundsError len n =
     RangeError (if len < n then ''ERR_BUFFER_OUT_OF_BOUNDS'' else ''ERR_OUT_OF_RANGE'')"

subsection \<open>Text\<close>

definition string_bytes :: "string \<Rightarrow> buffer" where
  "string_bytes s = map of_char s"

definition bytes_string :: "buffer \<Rightarrow> string" where
  "bytes_string bs = map (\<lambda>b. char_of (unat b)) bs"

definition is_continuation :: "8 word \<Rightarrow> bool" where
  "is_continuation b = (b AND 0xC0 = 0x80)"

text \<open>
  The longest prefix of at most \<open>n\<close> bytes that ends at a character boundary: a character
  that does not fit whole is not written.
\<close>

definition utf8_prefix :: "nat \<Rightarrow> buffer \<Rightarrow> buffer" where
  "utf8_prefix n bs =
     (if length bs \<le> n then bs
      else if is_continuation (bs ! n)
        then rev (tl (dropWhile is_continuation (rev (take n bs))))
      else take n bs)"

text \<open>\<open>buffer.write(string, offset, length)\<close> in UTF-8.\<close>

definition buffer_write :: "buffer \<Rightarrow> string \<Rightarrow> nat \<Rightarrow> nat \<Rightarrow> buffer outcome" where
  "buffer_write buf s off len =
     (if off > length buf then Throw (RangeError ''ERR_OUT_OF_RANGE'')
      else if len > length buf then Throw (RangeError ''ERR_OUT_OF_RANGE'')
      else Ok (overwrite buf off (utf8_prefix (min len (length buf - off)) (string_bytes s))))"

text \<open>
  \<open>buffer.toString('utf8', start, end)\<close>. The decoder is the identity on well-formed
  UTF-8; the replacement characters it substitutes for malformed input are not modelled.
\<close>

definition buffer_toString :: "buffer \<Rightarrow> nat \<Rightarrow> nat \<Rightarrow> string" where
  "buffer_toString buf start fin = bytes_string (subarray buf start fin)"

text \<open>\<open>.replace(/\x00+$/, '')\<close>.\<close>

definition strip_trailing_nul :: "string \<Rightarrow> string" where
  "strip_trailing_nul s = rev (dropWhile (\<lambda>c. c = CHR 0x00) (rev s))"

subsection \<open>Integers\<close>

fun le_bytes :: "nat \<Rightarrow> int \<Rightarrow> buffer" where
  "le_bytes 0 v = []"
| "le_bytes (Suc n) v = word_of_int v # le_bytes n (v div 256)"

fun le_value :: "buffer \<Rightarrow> int" where
  "le_value [] = 0"
| "le_value (b # bs) = uint b + 256 * le_value bs"

definition encode_int :: "bool \<Rightarrow> nat \<Rightarrow> int \<Rightarrow> buffer" where
  "encode_int little n v = (if little then le_bytes n v else rev (le_bytes n v))"

definition decode_int :: "bool \<Rightarrow> bool \<Rightarrow> buffer \<Rightarrow> int" where
  "decode_int sg little bs =
     (let u = le_value (if little then bs else rev bs)
      in if sg \<and> bs \<noteq> [] then signed_take_bit (8 * length bs - 1) u else u)"

definition int_min :: "bool \<Rightarrow> nat \<Rightarrow> int" where
  "int_min sg n = (if sg then - (2 ^ (8 * n - 1)) else 0)"

definition int_max :: "bool \<Rightarrow> nat \<Rightarrow> int" where
  "int_max sg n = (if sg then 2 ^ (8 * n - 1) - 1 else 2 ^ (8 * n) - 1)"

text \<open>
  \<open>buffer.write<T>(value, offset)\<close> and \<open>buffer.read<T>(offset)\<close> for an integer type of
  \<open>n\<close> bytes: the value is checked first, then the offset.
\<close>

definition write_int ::
  "bool \<Rightarrow> nat \<Rightarrow> bool \<Rightarrow> buffer \<Rightarrow> int \<Rightarrow> nat \<Rightarrow> buffer outcome" where
  "write_int sg n little buf v off =
     (if v < int_min sg n \<or> v > int_max sg n then Throw (RangeError ''ERR_OUT_OF_RANGE'')
      else if off + n > length buf then Throw (boundsError (length buf) n)
      else Ok (overwrite buf off (encode_int little n v)))"

definition read_int :: "bool \<Rightarrow> nat \<Rightarrow> bool \<Rightarrow> buffer \<Rightarrow> nat \<Rightarrow> int outcome" where
  "read_int sg n little buf off =
     (if off + n > length buf then Throw (boundsError (length buf) n)
      else Ok (decode_int sg little (take n (drop off buf))))"

text \<open>
  The methods \<open>write<T>\<close> and \<open>read<T>\<close> that \<open>'write' + field.type\<close> and
  \<open>'read' + field.type\<close> select: signedness, byte count, little-endianness, and whether
  the method takes and returns a \<open>bigint\<close>.
\<close>

definition buffer_methods :: "(string \<times> bool \<times> nat \<times> bool \<times> bool) list" where
  "buffer_methods =
     [(''Int8'', True, 1, True, False), (''UInt8'', False, 1, True, False),
      (''Int16LE'', True, 2, True, False), (''Int16BE'', True, 2, False, False),
      (''UInt16LE'', False, 2, True, False), (''UInt16BE'', False, 2, False, False),
      (''Int32LE'', True, 4, True, False), (''Int32BE'', True, 4, False, False),
      (''UInt32LE'', False, 4, True, False), (''UInt32BE'', False, 4, False, False),
      (''BigInt64LE'', True, 8, True, True), (''BigInt64BE'', True, 8, False, True),
      (''BigUInt64LE'', False, 8, True, True), (''BigUInt64BE'', False, 8, False, True)]"

section \<open>The codec\<close>

definition quoted :: "string \<Rightarrow> string" where
  "quoted s = CHR 0x22 # s @ [CHR 0x22]"

text \<open>
  A bitfield's type is a type name; \<open>startsWith\<close> on a \<open>Struct\<close> is a \<open>TypeError\<close>
  (no field that \<open>parseSchema\<close> builds is a bitfield of nested type).
\<close>

definition not_a_function :: "string \<Rightarrow> error" where
  "not_a_function m = TypeError (''field.type.'' @ m @ '' is not a function'')"

definition validateBitfieldValue :: "field \<Rightarrow> int \<Rightarrow> unit outcome" where
  "validateBitfieldValue fld v =
     (case ftype fld of
        TypeStruct s \<Rightarrow> Throw (not_a_function ''startsWith'')
      | TypeName t \<Rightarrow>
          (let maxBitValue = (if startsWith t ''Int'' then js_shl 1 (int (fsize fld) - 1) - 1
                              else js_shl 1 (int (fsize fld)) - 1);
               minBitValue = (if startsWith t ''Int'' then - js_shl 1 (int (fsize fld) - 1)
                              else 0)
           in if v < minBitValue \<or> v > maxBitValue
              then Throw (RangeError (''Value '' @ show_int v @ '' does not fit within '' @
                     show_nat (fsize fld) @ '' bits for type '' @ t))
              else Ok ()))"

definition processValueForBitfield :: "field \<Rightarrow> int \<Rightarrow> int outcome" where
  "processValueForBitfield fld v =
     (case ftype fld of
        TypeStruct s \<Rightarrow> Throw (not_a_function ''startsWith'')
      | TypeName t \<Rightarrow> Ok (if startsWith t ''Int'' then asIntN (fsize fld) v else v))"

definition applyBitmask :: "int \<Rightarrow> field \<Rightarrow> int \<Rightarrow> nat \<Rightarrow> int" where
  "applyBitmask currentByte fld v bitPosition =
     (let mask = js_shl 1 (int (fsize fld)) - 1;
          shiftedMask = js_shl mask (int bitPosition);
          cleared = js_and currentByte (js_not shiftedMask);
          valueShifted = js_and (js_shl v (int bitPosition)) shiftedMask
      in js_or cleared valueShifted)"

definition bitPosition_of :: "field \<Rightarrow> nat" where
  "bitPosition_of fld = (case position fld of None \<Rightarrow> 0 | Some p \<Rightarrow> p)"

definition writeBitField :: "buffer \<Rightarrow> field \<Rightarrow> int \<Rightarrow> buffer outcome" where
  "writeBitField buf fld v =
     (case validateBitfieldValue fld v of
        Throw e \<Rightarrow> Throw e
      | Unmodelled \<Rightarrow> Unmodelled
      | Ok u \<Rightarrow>
          (case processValueForBitfield fld v of
             Throw e \<Rightarrow> Throw e
           | Unmodelled \<Rightarrow> Unmodelled
           | Ok processedValue \<Rightarrow>
               Ok (store buf (offset fld)
                     (applyBitmask (operand (index buf (offset fld))) fld processedValue
                        (bitPosition_of fld)))))"

definition readBitField :: "buffer \<Rightarrow> field \<Rightarrow> int outcome" where
  "readBitField buf fld =
     (let currentByte = operand (index buf (offset fld));
          mask = js_shl 1 (int (fsize fld)) - 1;
          v = js_and (js_sar currentByte (int (bitPosition_of fld))) mask
      in processValueForBitfield fld v)"

text \<open>
  \<open>writeField\<close>. After the \<open>typeof\<close> checks the value is a number or a \<open>bigint\<close>, as
  the selected method expects for each of the fourteen type names.
\<close>

definition writeField :: "buffer \<Rightarrow> field \<Rightarrow> jsval \<Rightarrow> buffer outcome" where
  "writeField buf fld v =
     (case ftype fld of
        TypeStruct s \<Rightarrow> Throw (not_a_function ''includes'')
      | TypeName t \<Rightarrow>
          if t = ''string'' then
            (case v of
               JString s \<Rightarrow> buffer_write buf s (offset fld) (fsize fld)
             | _ \<Rightarrow> Throw (TypeError (''Expected a string for field '' @ quoted t @
                      '', but received '' @ typeof v)))
          else if includes_str t ''Big'' \<and> typeof v \<noteq> ''bigint'' then
            Throw (TypeError (''Expected a BigInt for field '' @ quoted t @
              '', but received '' @ typeof v))
          else if \<not> includes_str t ''Big'' \<and> typeof v \<noteq> ''number'' then
            Throw (TypeError (''Expected a number for field '' @ quoted t @
              '', but received '' @ typeof v))
          else
            (case map_of buffer_methods t of
               None \<Rightarrow> Unmodelled
             | Some (sg, n, little, big) \<Rightarrow>
                 (case v of
                    JNumber x \<Rightarrow> write_int sg n little buf x (offset fld)
                  | JBigInt x \<Rightarrow> write_int sg n little buf x (offset fld)
                  | _ \<Rightarrow> Unmodelled)))"

definition readField :: "buffer \<Rightarrow> field \<Rightarrow> jsval outcome" where
  "readField buf fld =
     (case ftype fld of
        TypeStruct s \<Rightarrow> Throw (TypeError ''Cannot read properties of undefined'')
      | TypeName t \<Rightarrow>
          if t = ''string'' then
            Ok (JString (strip_trailing_nul
                  (buffer_toString buf (offset fld) (offset fld + fsize fld))))
          else
            (case map_of buffer_methods t of
               None \<Rightarrow> Unmodelled
             | Some (sg, n, little, big) \<Rightarrow>
                 (case read_int sg n little buf (offset fld) of
                    Throw e \<Rightarrow> Throw e
                  | Unmodelled \<Rightarrow> Unmodelled
                  | Ok x \<Rightarrow> Ok (if big then JBigInt x else JNumber x))))"

text \<open>The own properties of a value; only an object has any.\<close>

fun properties :: "jsval \<Rightarrow> (string \<times> jsval) list" where
  "properties (JObject kvs) = kvs"
| "properties v = []"

text \<open>
  \<open>toBuffer\<close> and its loop over \<open>this.schema\<close>. \<open>fieldName in data\<close> holds for an own
  property and for an inherited member; a bitfield's value is used as a number without a
  check, so a value of another kind would be coerced.
\<close>

function toBuffer :: "struct \<Rightarrow> jsval \<Rightarrow> buffer outcome"
  and toBuffer_loop ::
    "(string \<times> field) list \<Rightarrow> (string \<times> jsval) list \<Rightarrow> buffer \<Rightarrow> buffer outcome"
where
  "toBuffer (Struct flds n) data =
     (if \<not> truthy data \<or> typeof data \<noteq> ''object''
      then Throw (Error (''Expected an object of fields, but received '' @ typeof data))
      else toBuffer_loop flds (properties data) (alloc n))"
| "toBuffer_loop [] data buf = Ok buf"
| "toBuffer_loop ((fieldName, Field (TypeStruct nested) sz off ib pos) # rest) data buf =
     (case map_of data fieldName of
        None \<Rightarrow>
          if fieldName \<in> set object_prototype_members then Unmodelled
          else toBuffer_loop rest data buf
      | Some nestedFieldValue \<Rightarrow>
          if truthy nestedFieldValue then
            (case toBuffer nested nestedFieldValue of
               Throw e \<Rightarrow> Throw e
             | Unmodelled \<Rightarrow> Unmodelled
             | Ok nestedStructBuffer \<Rightarrow>
                 (case buffer_set buf nestedStructBuffer off of
                    Throw e \<Rightarrow> Throw e
                  | Unmodelled \<Rightarrow> Unmodelled
                  | Ok buf1 \<Rightarrow> toBuffer_loop rest data buf1))
          else Throw (Error (''Expected an object for field '' @ fieldName @
                 '', but received '' @ typeof nestedFieldValue)))"
| "toBuffer_loop ((fieldName, Field (TypeName t) sz off ib pos) # rest) data buf =
     (case map_of data fieldName of
        None \<Rightarrow>
          if fieldName \<in> set object_prototype_members then Unmodelled
          else toBuffer_loop rest data buf
      | Some v \<Rightarrow>
          (case (if ib then (case v of
                               JNumber x \<Rightarrow> writeBitField buf (Field (TypeName t) sz off ib pos) x
                             | _ \<Rightarrow> Unmodelled)
                 else writeField buf (Field (TypeName t) sz off ib pos) v) of
             Throw e \<Rightarrow> Throw e
           | Unmodelled \<Rightarrow> Unmodelled
           | Ok buf1 \<Rightarrow> toBuffer_loop rest data buf1))"
  by pat_completeness auto
termination
  by (relation "measure (\<lambda>x. case x of Inl (s, d) \<Rightarrow> size s
                                  | Inr (fs, d, b) \<Rightarrow> size_list (size_prod (\<lambda>x. 0) size) fs)")
     auto

text \<open>\<open>toObject\<close> and its loop; \<open>result[fieldName] = ...\<close> is again \<open>AList.update\<close>.\<close>

function toObject :: "struct \<Rightarrow> buffer \<Rightarrow> jsval outcome"
  and toObject_loop ::
    "(string \<times> field) list \<Rightarrow> buffer \<Rightarrow> (string \<times> jsval) list \<Rightarrow> jsval outcome"
where
  "toObject (Struct flds n) buf = toObject_loop flds buf []"
| "toObject_loop [] buf result = Ok (JObject result)"
| "toObject_loop ((fieldName, Field (TypeStruct nested) sz off ib pos) # rest) buf result =
     (case toObject nested (subarray buf off (off + sz)) of
        Throw e \<Rightarrow> Throw e
      | Unmodelled \<Rightarrow> Unmodelled
      | Ok v \<Rightarrow> toObject_loop rest buf (AList.update fieldName v result))"
| "toObject_loop ((fieldName, Field (TypeName t) sz off ib pos) # rest) buf result =
     (case (if ib then (case readBitField buf (Field (TypeName t) sz off ib pos) of
                          Throw e \<Rightarrow> Throw e
                        | Unmodelled \<Rightarrow> Unmodelled
                        | Ok x \<Rightarrow> Ok (JNumber x))
            else readField buf (Field (TypeName t) sz off ib pos)) of
        Throw e \<Rightarrow> Throw e
      | Unmodelled \<Rightarrow> Unmodelled
      | Ok v \<Rightarrow> toObject_loop rest buf (AList.update fieldName v result))"
  by pat_completeness auto
termination
  by (relation "measure (\<lambda>x. case x of Inl (s, b) \<Rightarrow> size s
                                  | Inr (fs, b, r) \<Rightarrow> size_list (size_prod (\<lambda>x. 0) size) fs)")
     auto

section \<open>Auxiliary definitions for the statements\<close>



definition signed4 :: struct where
  "signed4 = Struct [(''f'', Field (TypeName ''Int8'') 4 0 True (Some 0))] 1"

definition example_struct :: struct where
  "example_struct =
     Struct [(''a'', Field (TypeName ''UInt8'') 4 0 True (Some 0)),
             (''b'', Field (TypeName ''UInt8'') 4 0 True (Some 4)),
             (''c'', Field (TypeName ''UInt16LE'') 2 1 False None)] 3"

definition inner_struct :: struct where
  "inner_struct = Struct [(''x'', Field (TypeName ''UInt8'') 1 0 False None)] 1"

definition outer_struct :: struct where
  "outer_struct = Struct [(''n'', Field (TypeStruct inner_struct) 1 0 False None)] 1"

text \<open>
  A token that \<open>parseField\<close> rejects: with a colon it does not match the pattern of
  \<open>parseBitField\<close>, without one it is not a key of \<open>typeSizes\<close>.
\<close>

definition malformed_token :: "string \<Rightarrow> bool" where
  "malformed_token tok =
     (if includes_str tok '':'' then match_bitfield tok = None
      else map_of typeSizes tok = None)"

text \<open>
  Schemas whose names stay clear of \<open>Object.prototype\<close>: no field is called
  \<open>__proto__\<close> and no token is the name of an inherited member.
\<close>

definition plain_names :: "(string \<times> schema_entry) list \<Rightarrow> bool" where
  "plain_names sch =
     (\<forall>(n, e) \<in> set sch. n \<noteq> ''__proto__'' \<and>
        (case e of Token t \<Rightarrow> t \<notin> set object_prototype_members | _ \<Rightarrow> True))"

subsection \<open>Well-formed schemas\<close>

text \<open>
  A well-formed entry: a bitfield token that \<open>parseBitField\<close> matches with a width from
  1 to 8, one of the fourteen primitive names, a text field, or a nested layout.
\<close>

definition wellformed_entry :: "schema_entry \<Rightarrow> bool" where
  "wellformed_entry e =
     (case e of
        Token t \<Rightarrow>
          if includes_str t '':'' then
            (case match_bitfield t of
               None \<Rightarrow> False
             | Some (ty, ds) \<Rightarrow> 1 \<le> parseInt ds \<and> parseInt ds \<le> 8)
          else map_of typeSizes t \<noteq> None
      | FieldInterface n \<Rightarrow> True
      | Nested s \<Rightarrow> True)"

text \<open>
  The keys of a schema object are distinct; \<open>__proto__\<close> is not an ordinary key.
\<close>

definition wellformed_schema :: "(string \<times> schema_entry) list \<Rightarrow> bool" where
  "wellformed_schema sch =
     (distinct (map fst sch) \<and> ''__proto__'' \<notin> set (map fst sch) \<and>
      list_all (\<lambda>ne. wellformed_entry (snd ne)) sch)"

text \<open>
  The layouts that the constructor builds from well-formed schemas, nested layouts
  included.
\<close>

inductive compiled :: "struct \<Rightarrow> bool" where
  "new_Struct sch = Ok s \<Longrightarrow> wellformed_schema sch \<Longrightarrow>
   (\<forall>n inner. (n, Nested inner) \<in> set sch \<longrightarrow> compiled inner) \<Longrightarrow> compiled s"

subsection \<open>One step of the pass, without the schema object\<close>

text \<open>
  The field that one iteration of \<open>parseSchema\<close> records for a parsed entry, and the
  accumulator it leaves; \<open>placed\<close> iterates it.
\<close>

definition place :: "accumulator \<Rightarrow> parse_field \<Rightarrow> field \<times> accumulator" where
  "place acc p =
     (if \<not> pisBits p then
        (let acc1 = (if bits acc > 0 then \<lparr>bits = 0, bytes = bytes acc + 1\<rparr> else acc)
         in (Field (ptype p) (psize p) (bytes acc1) False None,
             \<lparr>bits = 0, bytes = bytes acc1 + psize p\<rparr>))
      else
        (let acc1 = (if bits acc + psize p > 8 then \<lparr>bits = 0, bytes = bytes acc + 1\<rparr>
                     else acc)
         in (Field (ptype p) (psize p) (bytes acc1) True (Some (bits acc1)),
             acc1\<lparr>bits := bits acc1 + psize p\<rparr>)))"

fun placed ::
  "accumulator \<Rightarrow> (string \<times> parse_field) list \<Rightarrow> (string \<times> field) list \<times> accumulator"
where
  "placed acc [] = ([], acc)"
| "placed acc ((n, p) # ps) =
     (let (f, acc1) = place acc p; (fs, acc2) = placed acc1 ps in ((n, f) # fs, acc2))"

definition final_size :: "accumulator \<Rightarrow> nat" where
  "final_size acc = (if bits acc > 0 then bytes acc + 1 else bytes acc)"

subsection \<open>Spans\<close>

text \<open>
  The bits a field occupies, numbered from bit 0 of byte 0: a bitfield of width \<open>w\<close> at
  position \<open>p\<close> of byte \<open>o\<close> occupies the bits \<open>8 * o + p\<close> up to \<open>8 * o + p + w\<close>, any
  other field of \<open>n\<close> bytes the bits \<open>8 * o\<close> up to \<open>8 * (o + n)\<close>.
\<close>

definition span_start :: "field \<Rightarrow> nat" where
  "span_start f = (if isBits f then 8 * offset f + bitPosition_of f else 8 * offset f)"

definition span_end :: "field \<Rightarrow> nat" where
  "span_end f =
     (if isBits f then 8 * offset f + bitPosition_of f + fsize f
      else 8 * (offset f + fsize f))"


text \<open>The bytes a field occupies, and for a bitfield the bits within its byte.\<close>

definition byte_range :: "field \<Rightarrow> nat set" where
  "byte_range f = {offset f ..< offset f + (if isBits f then 1 else fsize f)}"

definition bit_range :: "field \<Rightarrow> nat set" where
  "bit_range f = {bitPosition_of f ..< bitPosition_of f + fsize f}"

subsection \<open>The size of a layout, as the specification counts it\<close>




text \<open>The position of the cursor of the pass, in bits.\<close>

definition cursor :: "accumulator \<Rightarrow> nat" where
  "cursor acc = 8 * bytes acc + bits acc"

text \<open>The parsed entries whose bitfields have a width from 1 to 8.\<close>

definition widths_ok :: "(string \<times> parse_field) list \<Rightarrow> bool" where
  "widths_ok ps = list_all (\<lambda>np. pisBits (snd np) \<longrightarrow> 1 \<le> psize (snd np) \<and> psize (snd np) \<le> 8) ps"

text \<open>What the pass records for each parsed entry.\<close>

definition recorded :: "string \<times> parse_field \<Rightarrow> string \<times> field \<Rightarrow> bool" where
  "recorded np nf =
     (fst nf = fst np \<and> ftype (snd nf) = ptype (snd np) \<and> fsize (snd nf) = psize (snd np) \<and>
      isBits (snd nf) = pisBits (snd np) \<and>
      (if pisBits (snd np)
       then \<exists>q. position (snd nf) = Some q \<and> q + psize (snd np) \<le> 8
       else position (snd nf) = None))"





subsection \<open>One field of the codec\<close>


definition decode_field :: "field \<Rightarrow> buffer \<Rightarrow> jsval outcome" where
  "decode_field f buf =
     (case ftype f of
        TypeStruct nested \<Rightarrow> toObject nested (subarray buf (offset f) (offset f + fsize f))
      | TypeName t \<Rightarrow>
          if isBits f then
            (case readBitField buf f of
               Throw e \<Rightarrow> Throw e
             | Unmodelled \<Rightarrow> Unmodelled
             | Ok x \<Rightarrow> Ok (JNumber x))
          else readField buf f)"

subsection \<open>Bits of a buffer\<close>

text \<open>Bit \<open>k\<close> of a buffer is bit \<open>k mod 8\<close> of its byte \<open>k div 8\<close>.\<close>

definition buf_bit :: "buffer \<Rightarrow> nat \<Rightarrow> bool" where
  "buf_bit buf k = (k div 8 < length buf \<and> bit (buf ! (k div 8)) (k mod 8))"




subsection \<open>Records of a layout\<close>




text \<open>
  What \<open>parseSchema\<close> guarantees of each field it records: a bitfield of type \<open>Int8\<close> or
  \<open>UInt8\<close> lies within its byte, a nested field has the size of its layout, and any
  other field is text or has the size of its integer type.
\<close>

definition field_ok :: "field \<Rightarrow> bool" where
  "field_ok f =
     (case ftype f of
        TypeStruct s \<Rightarrow> \<not> isBits f \<and> fsize f = struct_size s
      | TypeName t \<Rightarrow>
          if isBits f then
            (t = ''Int8'' \<or> t = ''UInt8'') \<and> 1 \<le> fsize f \<and>
            (\<exists>q. position f = Some q \<and> q + fsize f \<le> 8)
          else t = ''string'' \<or>
            (\<exists>sg little big. map_of buffer_methods t = Some (sg, fsize f, little, big)))"

text \<open>Layouts without a primitive field at any depth: bitfields, text and nested layouts.\<close>

function primitive_free :: "struct \<Rightarrow> bool"
  and primitive_free_fields :: "(string \<times> field) list \<Rightarrow> bool"
where
  "primitive_free (Struct flds n) = primitive_free_fields flds"
| "primitive_free_fields [] = True"
| "primitive_free_fields ((name, Field (TypeStruct nested) sz off ib pos) # rest) =
     (primitive_free nested \<and> primitive_free_fields rest)"
| "primitive_free_fields ((name, Field (TypeName t) sz off ib pos) # rest) =
     ((ib \<or> t = ''string'') \<and> primitive_free_fields rest)"
  by pat_completeness auto
termination
  by (relation "measure (\<lambda>x. case x of Inl s \<Rightarrow> size s
                                  | Inr fs \<Rightarrow> size_list (size_prod (\<lambda>x. 0) size) fs)")
     auto



text \<open>The outcomes of decoding: a value, or a \<open>RangeError\<close>.\<close>

definition decoded_or_range_error :: "jsval outcome \<Rightarrow> bool" where
  "decoded_or_range_error x = ((\<exists>v. x = Ok v) \<or> (\<exists>m. x = Throw (RangeError m)))"


section \<open>Bit shifts within range\<close>

lemma js_shl_one: "k \<le> 30 \<Longrightarrow> js_shl 1 (int k) = 2 ^ k"
proof -
  assume k: "k \<le> 30"
  have a: "ToInt32 1 = 1" by (simp add: ToInt32_def)
  have "(2::int) ^ k \<le> 2 ^ 30" using k by (intro power_increasing) auto
  then have b: "(2::int) ^ k < 2 ^ 31" by simp
  have c: "- (2 ^ 31) \<le> (2::int) ^ k"
    by (rule order_trans [of _ 0]) simp_all
  have d: "signed_take_bit 31 ((2::int) ^ k) = 2 ^ k"
    using b c by (simp only: signed_take_bit_int_eq_self)
  have e: "nat (int k mod 32) = k" using k by simp
  show ?thesis
    unfolding js_shl_def a e unfolding ToInt32_def push_bit_eq_mult using d by simp
qed


lemma startsWith_Int [simp]:
  "startsWith ''Int8'' ''Int''" "\<not> startsWith ''UInt8'' ''Int''"
  by (simp_all add: startsWith_def)

section \<open>The range check of a bitfield\<close>





section \<open>The worked example\<close>

text \<open>
  C2. The schema \<open>{ a: "UInt8:4", b: "UInt8:4", c: "UInt16LE" }\<close> compiles to a layout
  of 3 bytes; the record \<open>{a: 10, b: 5, c: 300}\<close> encodes to the bytes
  \<open>0x5A, 0x2C, 0x01\<close>, where \<open>0x5A\<close> is \<open>b\<close> shifted left by 4 or-ed with \<open>a\<close>
  and \<open>0x2C, 0x01\<close> is 300 in little-endian order; decoding those bytes gives the record
  back.
\<close>

theorem concrete_scenario:
  "new_Struct [(''a'', Token ''UInt8:4''), (''b'', Token ''UInt8:4''),
               (''c'', Token ''UInt16LE'')] = Ok example_struct \<and>
   struct_size example_struct = 3 \<and>
   toBuffer example_struct
     (JObject [(''a'', JNumber 10), (''b'', JNumber 5), (''c'', JNumber 300)]) =
     Ok [0x5A, 0x2C, 0x01] \<and>
   (0x5A :: 8 word) = push_bit 4 5 OR 10 \<and>
   encode_int True 2 300 = [0x2C, 0x01] \<and>
   toObject example_struct [0x5A, 0x2C, 0x01] =
     Ok (JObject [(''a'', JNumber 10), (''b'', JNumber 5), (''c'', JNumber 300)])"
proof -
  have a: "new_Struct [(''a'', Token ''UInt8:4''), (''b'', Token ''UInt8:4''),
               (''c'', Token ''UInt16LE'')] = Ok example_struct"
    unfolding example_struct_def by code_simp
  have b: "struct_size example_struct = 3"
    by (simp add: example_struct_def)
  have c: "toBuffer example_struct
     (JObject [(''a'', JNumber 10), (''b'', JNumber 5), (''c'', JNumber 300)]) =
     Ok [0x5A, 0x2C, 0x01]"
    unfolding example_struct_def by code_simp
  have d: "(0x5A :: 8 word) = push_bit 4 5 OR 10" by code_simp
  have e: "encode_int True 2 300 = [0x2C, 0x01]" by code_simp
  have f: "toObject example_struct [0x5A, 0x2C, 0x01] =
     Ok (JObject [(''a'', JNumber 10), (''b'', JNumber 5), (''c'', JNumber 300)])"
    unfolding example_struct_def by code_simp
  from a b c d e f show ?thesis by blast
qed

section \<open>The argument of toBuffer\<close>




section \<open>Malformed tokens\<close>

lemma parseField_malformed:
  assumes "malformed_token tok" "tok \<notin> set object_prototype_members"
  shows "\<exists>e. parseField (Token tok) = Throw e"
  using assms
  by (auto simp: malformed_token_def parseField_def parseBitField_def
      parsePrimitiveField_def split: if_splits)

lemma parseField_modelled:
  assumes "case e of Token t \<Rightarrow> t \<notin> set object_prototype_members | _ \<Rightarrow> True"
  shows "parseField e \<noteq> Unmodelled"
  using assms
  by (auto simp: parseField_def parseBitField_def parsePrimitiveField_def
      split: schema_entry.splits option.splits if_splits)

lemma parseSchema_step_modelled:
  assumes "n \<noteq> ''__proto__''"
    and "case e of Token t \<Rightarrow> t \<notin> set object_prototype_members | _ \<Rightarrow> True"
  shows "parseSchema_step (n, e) st \<noteq> Unmodelled"
  using parseField_modelled [OF assms(2)] assms(1)
  by (cases st; cases "parseField e") (simp_all add: parseSchema_step_def Let_def)

lemma parseSchema_step_malformed:
  assumes "malformed_token tok" "tok \<notin> set object_prototype_members"
  shows "\<exists>e. parseSchema_step (n, Token tok) st = Throw e"
  using parseField_malformed [OF assms]
  by (cases st) (auto simp: parseSchema_step_def)

lemma parseSchema_loop_malformed:
  assumes "plain_names sch" "(name, Token tok) \<in> set sch" "malformed_token tok"
  shows "\<exists>e. parseSchema_loop sch st = Throw e"
  using assms
proof (induction sch arbitrary: st)
  case Nil
  then show ?case by simp
next
  case (Cons ne rest)
  obtain n e where ne: "ne = (n, e)" by (cases ne)
  have plain: "n \<noteq> ''__proto__''"
    "case e of Token t \<Rightarrow> t \<notin> set object_prototype_members | _ \<Rightarrow> True"
    "plain_names rest"
    using Cons.prems(1) by (simp_all add: plain_names_def ne)
  have modelled: "parseSchema_step (n, e) st \<noteq> Unmodelled"
    by (rule parseSchema_step_modelled [OF plain(1,2)])
  show ?case
  proof (cases "parseSchema_step (n, e) st")
    case (Ok st1)
    have "ne \<noteq> (name, Token tok)"
    proof
      assume "ne = (name, Token tok)"
      then have "e = Token tok" "n = name" using ne by simp_all
      moreover have "tok \<notin> set object_prototype_members"
        using plain(2) \<open>e = Token tok\<close> by simp
      ultimately have "\<exists>err. parseSchema_step (n, e) st = Throw err"
        using parseSchema_step_malformed [OF Cons.prems(3)] by simp
      then show False using Ok by simp
    qed
    then have "(name, Token tok) \<in> set rest" using Cons.prems(2) by simp
    then have "\<exists>err. parseSchema_loop rest st1 = Throw err"
      using Cons.IH [OF plain(3) _ Cons.prems(3)] by simp
    then show ?thesis using Ok by (simp add: ne)
  next
    case (Throw err)
    then show ?thesis by (simp add: ne)
  next
    case Unmodelled
    then show ?thesis using modelled by simp
  qed
qed

lemma bitfield_digits_accepted:
  assumes "all_digits ds"
  shows "parseField (Token (''UInt8:'' @ ds)) =
           Ok \<lparr>ptype = TypeName ''UInt8'', psize = parseInt ds, pisBits = True\<rparr>"
    and "parseField (Token (''Int8:'' @ ds)) =
           Ok \<lparr>ptype = TypeName ''Int8'', psize = parseInt ds, pisBits = True\<rparr>"
  using assms
  by (simp_all add: parseField_def parseBitField_def match_bitfield_def)

text \<open>
  The claim C4 as it is written fails: the tokens \<open>"UInt8:9"\<close> and \<open>"UInt8:0"\<close>, whose
  widths lie outside 1..8, compile without an error.
\<close>

theorem bitfield_width_not_checked:
  "new_Struct [(''a'', Token ''UInt8:9'')] =
     Ok (Struct [(''a'', Field (TypeName ''UInt8'') 9 1 True (Some 0))] 2) \<and>
   new_Struct [(''a'', Token ''UInt8:0'')] =
     Ok (Struct [(''a'', Field (TypeName ''UInt8'') 0 0 True (Some 0))] 0)"
proof -
  have a: "new_Struct [(''a'', Token ''UInt8:9'')] =
     Ok (Struct [(''a'', Field (TypeName ''UInt8'') 9 1 True (Some 0))] 2)"
    by code_simp
  have b: "new_Struct [(''a'', Token ''UInt8:0'')] =
     Ok (Struct [(''a'', Field (TypeName ''UInt8'') 0 0 True (Some 0))] 0)"
    by code_simp
  from a b show ?thesis by blast
qed

text \<open>
  C4, amended. Construction throws whenever the schema holds a token with a colon that
  does not match \<open>/^(Int8|UInt8):(\d+)$/\<close>, or a token without a colon that is not one of
  the fourteen keys of \<open>typeSizes\<close> (for schemas whose names stay clear of
  \<open>Object.prototype\<close>). The width itself is not checked: every token \<open>UInt8:\<close> or
  \<open>Int8:\<close> followed by one or more decimal digits is parsed to a bitfield of that width.
\<close>

theorem malformed_token_fails_fast:
  "(\<forall>sch name tok.
      plain_names sch \<and> (name, Token tok) \<in> set sch \<and> malformed_token tok \<longrightarrow>
        (\<exists>e. new_Struct sch = Throw e)) \<and>
   (\<forall>ds. all_digits ds \<longrightarrow>
      parseField (Token (''UInt8:'' @ ds)) =
        Ok \<lparr>ptype = TypeName ''UInt8'', psize = parseInt ds, pisBits = True\<rparr> \<and>
      parseField (Token (''Int8:'' @ ds)) =
        Ok \<lparr>ptype = TypeName ''Int8'', psize = parseInt ds, pisBits = True\<rparr>)"
proof -
  have "\<exists>e. new_Struct sch = Throw e"
    if h: "plain_names sch" "(name, Token tok) \<in> set sch" "malformed_token tok"
    for sch name tok
  proof -
    obtain e where "parseSchema_loop sch ([], \<lparr>bits = 0, bytes = 0\<rparr>) = Throw e"
      using parseSchema_loop_malformed [OF h] by blast
    then show ?thesis by (simp add: new_Struct_def parseSchema_def)
  qed
  then show ?thesis using bitfield_digits_accepted by blast
qed

theorem malformed_token_fails_fast_witness:
  "new_Struct [(''a'', Token ''UInt8''), (''b'', Token ''UInt8:x''), (''c'', Token ''Int8:3'')] =
     Throw (Error ''Invalid bit field format: UInt8:x'') \<and>
   new_Struct [(''a'', Token ''UInt8''), (''b'', Token ''UInt24LE'')] =
     Throw (TypeError ''Unsupported primitive type: UInt24LE'') \<and>
   (\<exists>e. new_Struct [(''a'', Token ''Float'')] = Throw e) \<and>
   parseField (Token ''UInt8:12'') =
     Ok \<lparr>ptype = TypeName ''UInt8'', psize = 12, pisBits = True\<rparr>"
proof -
  have a: "new_Struct [(''a'', Token ''UInt8''), (''b'', Token ''UInt8:x''),
      (''c'', Token ''Int8:3'')] = Throw (Error ''Invalid bit field format: UInt8:x'')"
    by code_simp
  have b: "new_Struct [(''a'', Token ''UInt8''), (''b'', Token ''UInt24LE'')] =
     Throw (TypeError ''Unsupported primitive type: UInt24LE'')"
    by code_simp
  have p: "plain_names [(''a'', Token ''Float'')]"
    by (simp add: plain_names_def object_prototype_members_def)
  have m: "malformed_token ''Float''"
    by (simp add: malformed_token_def typeSizes_def)
  have c: "\<exists>e. new_Struct [(''a'', Token ''Float'')] = Throw e"
    using malformed_token_fails_fast p m by (meson list.set_intros(1))
  have d: "all_digits ''12''" by (simp add: all_digits_def is_digit_def)
  have e: "parseInt ''12'' = 12" by (simp add: parseInt_def digit_val_def)
  have "parseField (Token (''UInt8:'' @ ''12'')) =
     Ok \<lparr>ptype = TypeName ''UInt8'', psize = parseInt ''12'', pisBits = True\<rparr>"
    using malformed_token_fails_fast d by blast
  then have f: "parseField (Token ''UInt8:12'') =
     Ok \<lparr>ptype = TypeName ''UInt8'', psize = 12, pisBits = True\<rparr>"
    using e by simp
  from a b c f show ?thesis by blast
qed

section \<open>A nested field whose value is not an object\<close>

text \<open>
  C8. For a nested field the documentation of \<open>toBuffer\<close> promises the error
  ``Expected an object for field <name>, but received <typeof value>'' when the value is
  \<open>null\<close> or a primitive. The guard tests truthiness only: \<open>null\<close> gets that error, but
  the number 5 is passed to the nested \<open>toBuffer\<close>, whose error does not name the field.
\<close>

theorem nested_value_error_unnamed:
  "new_Struct [(''x'', Token ''UInt8'')] = Ok inner_struct \<and>
   new_Struct [(''n'', Nested inner_struct)] = Ok outer_struct \<and>
   toBuffer outer_struct (JObject [(''n'', JNull)]) =
     Throw (Error ''Expected an object for field n, but received object'') \<and>
   toBuffer outer_struct (JObject [(''n'', JNumber 5)]) =
     Throw (Error ''Expected an object of fields, but received number'') \<and>
   toBuffer outer_struct (JObject [(''n'', JString ''abc'')]) =
     Throw (Error ''Expected an object of fields, but received string'')"
proof -
  have a: "new_Struct [(''x'', Token ''UInt8'')] = Ok inner_struct"
    unfolding inner_struct_def by code_simp
  have b: "new_Struct [(''n'', Nested inner_struct)] = Ok outer_struct"
    unfolding outer_struct_def inner_struct_def by code_simp
  have c: "toBuffer outer_struct (JObject [(''n'', JNull)]) =
     Throw (Error ''Expected an object for field n, but received object'')"
    unfolding outer_struct_def inner_struct_def by code_simp
  have d: "toBuffer outer_struct (JObject [(''n'', JNumber 5)]) =
     Throw (Error ''Expected an object of fields, but received number'')"
    unfolding outer_struct_def inner_struct_def by code_simp
  have e: "toBuffer outer_struct (JObject [(''n'', JString ''abc'')]) =
     Throw (Error ''Expected an object of fields, but received string'')"
    unfolding outer_struct_def inner_struct_def by code_simp
  from a b c d e show ?thesis by blast
qed


section \<open>The layout pass\<close>

lemma update_fresh: "k \<notin> fst ` set xs \<Longrightarrow> AList.update k v xs = xs @ [(k, v)]"
  by (induction xs) auto

lemma parseSchema_step_Ok:
  assumes "parseField e = Ok p" "n \<noteq> ''__proto__''"
  shows "parseSchema_step (n, e) (flds, acc) =
           Ok (AList.update n (fst (place acc p)) flds, snd (place acc p))"
  using assms
  by (simp add: parseSchema_step_def processBitfield_def place_def Let_def)

lemma wellformed_entry_parses:
  assumes "wellformed_entry e"
  shows "\<exists>p. parseField e = Ok p \<and>
           (pisBits p \<longrightarrow> 1 \<le> psize p \<and> psize p \<le> 8 \<and>
              (ptype p = TypeName ''Int8'' \<or> ptype p = TypeName ''UInt8'')) \<and>
           (\<not> pisBits p \<longrightarrow>
              (case e of
                 Token t \<Rightarrow> ptype p = TypeName t \<and> map_of typeSizes t = Some (psize p)
               | FieldInterface k \<Rightarrow> ptype p = TypeName ''string'' \<and> psize p = k
               | Nested s \<Rightarrow> ptype p = TypeStruct s \<and> psize p = struct_size s)) \<and>
           (pisBits p \<longrightarrow> (\<exists>t. e = Token t))"
proof (cases e)
  case (Token t)
  show ?thesis
  proof (cases "includes_str t '':''")
    case True
    then obtain ty ds where m: "match_bitfield t = Some (ty, ds)"
      and w: "1 \<le> parseInt ds" "parseInt ds \<le> 8"
      using assms Token by (auto simp: wellformed_entry_def split: option.splits)
    have "ty = ''Int8'' \<or> ty = ''UInt8''"
      using m by (auto simp: match_bitfield_def split: if_splits)
    then show ?thesis using True Token m w
      by (auto simp: parseField_def parseBitField_def)
  next
    case False
    then obtain k where "map_of typeSizes t = Some k"
      using assms Token by (auto simp: wellformed_entry_def)
    then show ?thesis using False Token
      by (simp add: parseField_def parsePrimitiveField_def)
  qed
next
  case (FieldInterface k)
  then show ?thesis by (simp add: parseField_def)
next
  case (Nested s)
  then show ?thesis by (simp add: parseField_def)
qed

lemma placed_Cons:
  "placed acc ((n, p) # ps) =
     ((n, fst (place acc p)) # fst (placed (snd (place acc p)) ps),
      snd (placed (snd (place acc p)) ps))"
  by (simp add: Let_def split: prod.splits)

lemma placed_names: "map fst (fst (placed acc ps)) = map fst ps"
proof (induction ps arbitrary: acc)
  case Nil
  then show ?case by simp
next
  case (Cons np ps)
  obtain n p where "np = (n, p)" by (cases np)
  then show ?case using Cons.IH by (simp add: placed_Cons del: placed.simps)
qed

lemma parseSchema_loop_placed:
  assumes "distinct (map fst sch)" "''__proto__'' \<notin> set (map fst sch)"
    and "list_all2 (\<lambda>ne np. fst np = fst ne \<and> parseField (snd ne) = Ok (snd np)) sch ps"
    and "set (map fst sch) \<inter> fst ` set flds = {}"
  shows "parseSchema_loop sch (flds, acc) =
           Ok (flds @ fst (placed acc ps), snd (placed acc ps))"
  using assms(3,1,2,4)
proof (induction sch ps arbitrary: flds acc rule: list_all2_induct)
  case Nil
  then show ?case by simp
next
  case (Cons ne sch np ps)
  obtain n e where ne: "ne = (n, e)" by (cases ne)
  obtain m p where np: "np = (m, p)" by (cases np)
  have mn: "m = n" and parse: "parseField e = Ok p"
    using Cons.hyps(1) ne np by simp_all
  have fresh: "n \<notin> fst ` set flds" and proto: "n \<noteq> ''__proto__''"
    using Cons.prems ne by auto
  obtain f acc1 where pl: "place acc p = (f, acc1)" by (cases "place acc p")
  have step: "parseSchema_step (n, e) (flds, acc) = Ok (flds @ [(n, f)], acc1)"
    using parseSchema_step_Ok [OF parse proto] pl update_fresh [OF fresh] by simp
  have "set (map fst sch) \<inter> fst ` set (flds @ [(n, f)]) = {}"
    using Cons.prems ne by auto
  then have "parseSchema_loop sch (flds @ [(n, f)], acc1) =
           Ok ((flds @ [(n, f)]) @ fst (placed acc1 ps), snd (placed acc1 ps))"
    using Cons.IH Cons.prems by simp
  then show ?case
    using step pl by (simp add: ne np mn split: prod.splits)
qed

lemma wellformed_schema_parses:
  assumes "list_all (\<lambda>ne. wellformed_entry (snd ne)) sch"
  shows "\<exists>ps. list_all2 (\<lambda>ne np. fst np = fst ne \<and> parseField (snd ne) = Ok (snd np)) sch ps"
  using assms
proof (induction sch)
  case Nil
  then show ?case by simp
next
  case (Cons ne sch)
  then obtain ps where
    ps: "list_all2 (\<lambda>ne np. fst np = fst ne \<and> parseField (snd ne) = Ok (snd np)) sch ps"
    by auto
  obtain p where "parseField (snd ne) = Ok p"
    using wellformed_entry_parses Cons.prems by fastforce
  then have "list_all2 (\<lambda>ne np. fst np = fst ne \<and> parseField (snd ne) = Ok (snd np))
               (ne # sch) ((fst ne, p) # ps)"
    using ps by simp
  then show ?case by blast
qed

text \<open>A well-formed schema compiles, to the fields that \<open>placed\<close> lists.\<close>

lemma new_Struct_wellformed:
  assumes "wellformed_schema sch"
  shows "\<exists>ps. list_all2 (\<lambda>ne np. fst np = fst ne \<and> parseField (snd ne) = Ok (snd np)) sch ps \<and>
           new_Struct sch =
             Ok (Struct (fst (placed \<lparr>bits = 0, bytes = 0\<rparr> ps))
                   (final_size (snd (placed \<lparr>bits = 0, bytes = 0\<rparr> ps))))"
proof -
  from assms have d: "distinct (map fst sch)" "''__proto__'' \<notin> set (map fst sch)"
    and w: "list_all (\<lambda>ne. wellformed_entry (snd ne)) sch"
    by (simp_all add: wellformed_schema_def)
  obtain ps where
    ps: "list_all2 (\<lambda>ne np. fst np = fst ne \<and> parseField (snd ne) = Ok (snd np)) sch ps"
    using wellformed_schema_parses [OF w] by blast
  have "parseSchema_loop sch ([], \<lparr>bits = 0, bytes = 0\<rparr>) =
          Ok ([] @ fst (placed \<lparr>bits = 0, bytes = 0\<rparr> ps), snd (placed \<lparr>bits = 0, bytes = 0\<rparr> ps))"
    by (rule parseSchema_loop_placed [OF d ps]) simp
  then have "new_Struct sch =
             Ok (Struct (fst (placed \<lparr>bits = 0, bytes = 0\<rparr> ps))
                   (final_size (snd (placed \<lparr>bits = 0, bytes = 0\<rparr> ps))))"
    by (simp add: new_Struct_def parseSchema_def final_size_def split: prod.splits)
  then show ?thesis using ps by blast
qed

lemma place_fields [simp]:
  "ftype (fst (place acc p)) = ptype p"
  "fsize (fst (place acc p)) = psize p"
  "isBits (fst (place acc p)) = pisBits p"
  by (simp_all add: place_def Let_def)

lemma place_span:
  assumes "bits acc \<le> 8" "pisBits p \<longrightarrow> 1 \<le> psize p \<and> psize p \<le> 8"
  shows "cursor acc \<le> span_start (fst (place acc p))"
    and "span_end (fst (place acc p)) = cursor (snd (place acc p))"
    and "bits (snd (place acc p)) \<le> 8"
    and "span_start (fst (place acc p)) \<le> span_end (fst (place acc p))"
  using assms
  by (auto simp: place_def span_start_def span_end_def cursor_def bitPosition_of_def Let_def)

lemma place_position:
  assumes "bits acc \<le> 8" "pisBits p" "1 \<le> psize p" "psize p \<le> 8"
  shows "\<exists>q. position (fst (place acc p)) = Some q \<and> q + psize p \<le> 8"
  using assms by (auto simp: place_def Let_def)

lemma place_position_None:
  "\<not> pisBits p \<Longrightarrow> position (fst (place acc p)) = None"
  by (simp add: place_def Let_def)

lemma widths_ok_Cons [simp]:
  "widths_ok ((n, p) # ps) = ((pisBits p \<longrightarrow> 1 \<le> psize p \<and> psize p \<le> 8) \<and> widths_ok ps)"
  by (simp add: widths_ok_def)





lemma placed_spans:
  assumes "bits acc \<le> 8" "widths_ok ps"
  shows "(\<forall>nf \<in> set (fst (placed acc ps)).
            cursor acc \<le> span_start (snd nf) \<and>
            span_end (snd nf) \<le> cursor (snd (placed acc ps))) \<and>
         sorted_wrt (\<lambda>x y. span_end (snd x) \<le> span_start (snd y)) (fst (placed acc ps)) \<and>
         bits (snd (placed acc ps)) \<le> 8 \<and>
         cursor acc \<le> cursor (snd (placed acc ps))"
  using assms
proof (induction ps arbitrary: acc)
  case Nil
  then show ?case by simp
next
  case (Cons np ps)
  obtain n p where np: "np = (n, p)" by (cases np)
  let ?f = "fst (place acc p)" and ?a = "snd (place acc p)"
  have w: "pisBits p \<longrightarrow> 1 \<le> psize p \<and> psize p \<le> 8" and ws: "widths_ok ps"
    using Cons.prems(2) np by simp_all
  note pl = place_span [OF Cons.prems(1) w]
  note ih = Cons.IH [OF pl(3) ws]
  have a: "cursor acc \<le> cursor ?a" using pl(1,2,4) by simp
  show ?case
    unfolding np placed_Cons using ih pl a
    by (auto simp del: placed.simps intro: order_trans)
qed

lemma placed_recorded:
  assumes "bits acc \<le> 8" "widths_ok ps"
  shows "list_all2 recorded ps (fst (placed acc ps))"
  using assms
proof (induction ps arbitrary: acc)
  case Nil
  then show ?case by simp
next
  case (Cons np ps)
  obtain n p where np: "np = (n, p)" by (cases np)
  have w: "pisBits p \<longrightarrow> 1 \<le> psize p \<and> psize p \<le> 8" and ws: "widths_ok ps"
    using Cons.prems(2) np by simp_all
  have "recorded (n, p) (n, fst (place acc p))"
    using place_position [OF Cons.prems(1)] place_position_None w
    by (auto simp: recorded_def)
  moreover have "list_all2 recorded ps (fst (placed (snd (place acc p)) ps))"
    by (rule Cons.IH [OF place_span(3) [OF Cons.prems(1) w] ws])
  ultimately show ?case
    unfolding np placed_Cons by (simp del: placed.simps)
qed

text \<open>
  Everything the later proofs use about a layout compiled from a well-formed schema.
\<close>

lemma new_Struct_layout:
  assumes "wellformed_schema sch" "new_Struct sch = Ok s"
  obtains ps where
    "list_all2 (\<lambda>ne np. fst np = fst ne \<and> parseField (snd ne) = Ok (snd np)) sch ps"
    "widths_ok ps"
    "schema s = fst (placed \<lparr>bits = 0, bytes = 0\<rparr> ps)"
    "struct_size s = final_size (snd (placed \<lparr>bits = 0, bytes = 0\<rparr> ps))"
proof -
  obtain ps where
    ps: "list_all2 (\<lambda>ne np. fst np = fst ne \<and> parseField (snd ne) = Ok (snd np)) sch ps"
    and s: "new_Struct sch =
             Ok (Struct (fst (placed \<lparr>bits = 0, bytes = 0\<rparr> ps))
                   (final_size (snd (placed \<lparr>bits = 0, bytes = 0\<rparr> ps))))"
    using new_Struct_wellformed [OF assms(1)] by blast
  have w: "list_all (\<lambda>ne. wellformed_entry (snd ne)) sch"
    using assms(1) by (simp add: wellformed_schema_def)
  have "widths_ok ps"
    unfolding widths_ok_def list_all_length
  proof (intro allI impI)
    fix i assume i: "i < length ps" and b: "pisBits (snd (ps ! i))"
    have len: "length sch = length ps" using ps by (rule list_all2_lengthD)
    have "wellformed_entry (snd (sch ! i))"
      using w i len by (simp add: list_all_length)
    then obtain p where p: "parseField (snd (sch ! i)) = Ok p"
      "pisBits p \<longrightarrow> 1 \<le> psize p \<and> psize p \<le> 8"
      using wellformed_entry_parses by blast
    have "parseField (snd (sch ! i)) = Ok (snd (ps ! i))"
      using list_all2_nthD2 [OF ps i] by simp
    then have "p = snd (ps ! i)" using p(1) by simp
    then show "1 \<le> psize (snd (ps ! i)) \<and> psize (snd (ps ! i)) \<le> 8"
      using p(2) b by simp
  qed
  moreover have "schema s = fst (placed \<lparr>bits = 0, bytes = 0\<rparr> ps)"
    "struct_size s = final_size (snd (placed \<lparr>bits = 0, bytes = 0\<rparr> ps))"
    using s assms(2) by auto
  ultimately show ?thesis using ps that by blast
qed

lemma ordered_fields_disjoint:
  assumes "span_end f \<le> span_start g"
    and "isBits f \<longrightarrow> 1 \<le> fsize f \<and> bitPosition_of f + fsize f \<le> 8"
    and "isBits g \<longrightarrow> 1 \<le> fsize g \<and> bitPosition_of g + fsize g \<le> 8"
  shows "if isBits f \<and> isBits g \<and> offset f = offset g
         then bit_range f \<inter> bit_range g = {} \<and> bit_range g \<inter> bit_range f = {}
         else byte_range f \<inter> byte_range g = {} \<and> byte_range g \<inter> byte_range f = {}"
  using assms
  unfolding span_start_def span_end_def bit_range_def byte_range_def
  by (auto split: if_splits)


section \<open>Size and disjointness of a compiled layout\<close>

lemma example_wellformed:
  "wellformed_schema [(''a'', Token ''UInt8:4''), (''b'', Token ''UInt8:4''),
                      (''c'', Token ''UInt16LE'')]"
  by code_simp

lemma example_compiles:
  "new_Struct [(''a'', Token ''UInt8:4''), (''b'', Token ''UInt8:4''),
               (''c'', Token ''UInt16LE'')] = Ok example_struct"
  unfolding example_struct_def by code_simp



text \<open>
  C6. In a layout compiled from a schema of well-formed tokens, two distinct fields never
  overlap: their byte ranges are disjoint, unless both are bitfields packed into the same
  byte, and then their bit ranges \<open>[position, position + size)\<close> are disjoint; for every
  bitfield \<open>position + size \<le> 8\<close>.
\<close>

theorem fields_do_not_overlap:
  assumes "wellformed_schema sch" "new_Struct sch = Ok s"
  shows "(\<forall>i j. i < length (schema s) \<and> j < length (schema s) \<and> i \<noteq> j \<longrightarrow>
            (if isBits (snd (schema s ! i)) \<and> isBits (snd (schema s ! j)) \<and>
                offset (snd (schema s ! i)) = offset (snd (schema s ! j))
             then bit_range (snd (schema s ! i)) \<inter> bit_range (snd (schema s ! j)) = {}
             else byte_range (snd (schema s ! i)) \<inter> byte_range (snd (schema s ! j)) = {})) \<and>
         (\<forall>nf \<in> set (schema s).
            isBits (snd nf) \<longrightarrow> bitPosition_of (snd nf) + fsize (snd nf) \<le> 8)"
proof -
  let ?acc = "\<lparr>bits = 0, bytes = 0\<rparr>"
  obtain ps where w: "widths_ok ps" and sch: "schema s = fst (placed ?acc ps)"
    using new_Struct_layout [OF assms] by blast
  have r: "list_all2 recorded ps (schema s)"
    using placed_recorded [of ?acc ps] w sch by simp
  have bitfield: "isBits (snd (schema s ! i)) \<longrightarrow>
      1 \<le> fsize (snd (schema s ! i)) \<and>
      bitPosition_of (snd (schema s ! i)) + fsize (snd (schema s ! i)) \<le> 8"
    if i: "i < length (schema s)" for i
  proof -
    have "recorded (ps ! i) (schema s ! i)"
      using list_all2_nthD2 [OF r i] .
    moreover have "pisBits (snd (ps ! i)) \<longrightarrow>
        1 \<le> psize (snd (ps ! i)) \<and> psize (snd (ps ! i)) \<le> 8"
      using w i list_all2_lengthD [OF r] by (simp add: widths_ok_def list_all_length)
    ultimately show ?thesis
      by (auto simp: recorded_def bitPosition_of_def)
  qed
  have sorted: "sorted_wrt (\<lambda>x y. span_end (snd x) \<le> span_start (snd y)) (schema s)"
    using placed_spans [of ?acc ps] w sch by simp
  have ordered: "span_end (snd (schema s ! i)) \<le> span_start (snd (schema s ! j))"
    if "i < j" "j < length (schema s)" for i j
    using sorted that by (simp add: sorted_wrt_iff_nth_less)
  have pair: "if isBits (snd (schema s ! i)) \<and> isBits (snd (schema s ! j)) \<and>
                offset (snd (schema s ! i)) = offset (snd (schema s ! j))
             then bit_range (snd (schema s ! i)) \<inter> bit_range (snd (schema s ! j)) = {}
             else byte_range (snd (schema s ! i)) \<inter> byte_range (snd (schema s ! j)) = {}"
    if ij: "i < length (schema s)" "j < length (schema s)" "i \<noteq> j" for i j
  proof (cases "i < j")
    case True
    show ?thesis
      using ordered_fields_disjoint [OF ordered [OF True ij(2)] bitfield [OF ij(1)]
          bitfield [OF ij(2)]]
      by (simp split: if_splits)
  next
    case False
    then have ji: "j < i" using ij(3) by simp
    show ?thesis
      using ordered_fields_disjoint [OF ordered [OF ji ij(1)] bitfield [OF ij(2)]
          bitfield [OF ij(1)]]
      by (auto split: if_splits)
  qed
  have "\<forall>nf \<in> set (schema s).
          isBits (snd nf) \<longrightarrow> bitPosition_of (snd nf) + fsize (snd nf) \<le> 8"
  proof
    fix nf assume "nf \<in> set (schema s)"
    then obtain i where "i < length (schema s)" "nf = schema s ! i"
      by (auto simp: in_set_conv_nth)
    then show "isBits (snd nf) \<longrightarrow> bitPosition_of (snd nf) + fsize (snd nf) \<le> 8"
      using bitfield [of i] by simp
  qed
  then show ?thesis using pair by blast
qed

theorem fields_do_not_overlap_witness:
  "bit_range (Field (TypeName ''UInt8'') 4 0 True (Some 0)) \<inter>
     bit_range (Field (TypeName ''UInt8'') 4 0 True (Some 4)) = {} \<and>
   byte_range (Field (TypeName ''UInt8'') 4 0 True (Some 4)) \<inter>
     byte_range (Field (TypeName ''UInt16LE'') 2 1 False None) = {}"
proof -
  note t = fields_do_not_overlap [OF example_wellformed example_compiles]
  have len: "length (schema example_struct) = 3" by (simp add: example_struct_def)
  have "(0::nat) < length (schema example_struct) \<and> (1::nat) < length (schema example_struct)
      \<and> (0::nat) \<noteq> 1" using len by simp
  then have a: "if isBits (snd (schema example_struct ! 0)) \<and>
        isBits (snd (schema example_struct ! 1)) \<and>
        offset (snd (schema example_struct ! 0)) = offset (snd (schema example_struct ! 1))
      then bit_range (snd (schema example_struct ! 0)) \<inter>
           bit_range (snd (schema example_struct ! 1)) = {}
      else byte_range (snd (schema example_struct ! 0)) \<inter>
           byte_range (snd (schema example_struct ! 1)) = {}"
    using t by blast
  have "(1::nat) < length (schema example_struct) \<and> (2::nat) < length (schema example_struct)
      \<and> (1::nat) \<noteq> 2" using len by simp
  then have b: "if isBits (snd (schema example_struct ! 1)) \<and>
        isBits (snd (schema example_struct ! 2)) \<and>
        offset (snd (schema example_struct ! 1)) = offset (snd (schema example_struct ! 2))
      then bit_range (snd (schema example_struct ! 1)) \<inter>
           bit_range (snd (schema example_struct ! 2)) = {}
      else byte_range (snd (schema example_struct ! 1)) \<inter>
           byte_range (snd (schema example_struct ! 2)) = {}"
    using t by blast
  from a b show ?thesis by (simp add: example_struct_def)
qed


section \<open>Bitfields, bit by bit\<close>

lemma bit_ToInt32: "bit (ToInt32 x) k = bit x (min 31 k)"
  by (simp add: ToInt32_def bit_signed_take_bit_iff)

lemma bit_js_and: "bit (js_and a b) k = (bit a (min 31 k) \<and> bit b (min 31 k))"
  by (simp add: js_and_def bit_and_iff bit_ToInt32)




lemma bit_js_sar:
  assumes "n < 32"
  shows "bit (js_sar a (int n)) k = bit a (min 31 (n + k))"
proof -
  have "nat (int n mod 32) = n" using assms(1) by simp
  then show ?thesis
    by (simp add: js_sar_def bit_ToInt32 bit_drop_bit_eq)
qed

lemma js_mask: "w \<le> 30 \<Longrightarrow> js_shl 1 (int w) - 1 = mask w"
  by (simp add: js_shl_one mask_eq_exp_minus_1)


lemma length_store [simp]: "length (store buf i x) = length buf"
  by (simp add: store_def)


lemma bit_operand_index:
  "bit (operand (index buf i)) j = (i < length buf \<and> bit (buf ! i) j)"
  by (auto simp: operand_def index_def bit_uint_iff dest: bit_imp_le_length)

text \<open>The facts about a bitfield that \<open>field_ok\<close> holds.\<close>

lemma field_ok_bitfield:
  assumes "field_ok f" "isBits f"
  obtains t q where "ftype f = TypeName t" "t = ''Int8'' \<or> t = ''UInt8''"
    "1 \<le> fsize f" "fsize f \<le> 8" "position f = Some q" "bitPosition_of f = q"
    "q + fsize f \<le> 8"
  using assms
  by (cases "ftype f") (auto simp: field_ok_def bitPosition_of_def)



lemma buf_bit_in_byte:
  assumes "j < 8"
  shows "buf_bit buf (8 * i + j) = (i < length buf \<and> bit (buf ! i) j)"
proof -
  have "(8 * i + j) div 8 = i" "(8 * i + j) mod 8 = j" using assms by simp_all
  then show ?thesis by (simp add: buf_bit_def)
qed

text \<open>What \<open>readBitField\<close> reads: the bits of the span, then the sign.\<close>

lemma readBitField_val:
  assumes ok: "field_ok f" "isBits f"
  obtains val where
    "readBitField buf f =
       Ok (if ftype f = TypeName ''Int8'' then asIntN (fsize f) val else val)"
    "\<And>j. bit val j = (j < fsize f \<and> buf_bit buf (span_start f + j))"
proof -
  obtain t q where f: "ftype f = TypeName t" "t = ''Int8'' \<or> t = ''UInt8''"
    "1 \<le> fsize f" "fsize f \<le> 8" "position f = Some q" "bitPosition_of f = q"
    "q + fsize f \<le> 8"
    using field_ok_bitfield [OF ok] by blast
  have le30: "fsize f \<le> 30" and q32: "q < 32" using f(4,7) by simp_all
  define cur where "cur = operand (index buf (offset f))"
  define val where "val = js_and (js_sar cur (int q)) (js_shl 1 (int (fsize f)) - 1)"
  have r: "readBitField buf f =
       Ok (if ftype f = TypeName ''Int8'' then asIntN (fsize f) val else val)"
    using f(1,2)
    by (auto simp: readBitField_def processValueForBitfield_def Let_def f(6) val_def cur_def)
  have b: "bit val j = (j < fsize f \<and> buf_bit buf (span_start f + j))" for j
  proof (cases "j < fsize f")
    case True
    then have j: "min 31 j = j" "min 31 (q + j) = q + j" "q + j < 8" using f(4,7) by simp_all
    have "bit val j = bit cur (q + j)"
      using True by (simp add: val_def js_mask [OF le30] bit_js_and bit_js_sar [OF q32]
          bit_mask_iff j)
    also have "\<dots> = buf_bit buf (8 * offset f + (q + j))"
      by (simp add: cur_def bit_operand_index buf_bit_in_byte [OF j(3)])
    finally show ?thesis using True ok(2) by (simp add: span_start_def f(6) add.assoc)
  next
    case False
    then have "\<not> min 31 j < fsize f" using f(4) by simp
    then show ?thesis using False
      by (simp add: val_def js_mask [OF le30] bit_js_and bit_mask_iff)
  qed
  from r b show ?thesis using that by blast
qed





section \<open>Bytes of a buffer\<close>









section \<open>Integers in a buffer\<close>

lemma length_le_bytes [simp]: "length (le_bytes n v) = n"
  by (induction n arbitrary: v) simp_all


lemma length_encode_int [simp]: "length (encode_int little n v) = n"
  by (simp add: encode_int_def)




section \<open>Text in a buffer\<close>












section \<open>One field\<close>



lemma typeSizes_table:
  "list_all (\<lambda>(t, n). case map_of buffer_methods t of
                         None \<Rightarrow> False
                       | Some (sg, m, little, big) \<Rightarrow> m = n) typeSizes"
  by code_simp

lemma typeSizes_methods:
  assumes "map_of typeSizes t = Some n"
  shows "\<exists>sg little big. map_of buffer_methods t = Some (sg, n, little, big)"
proof -
  have "(t, n) \<in> set typeSizes" using assms by (rule map_of_SomeD)
  then have "case map_of buffer_methods t of
               None \<Rightarrow> False | Some (sg, m, little, big) \<Rightarrow> m = n"
    using typeSizes_table unfolding list_all_iff by fastforce
  then show ?thesis by (auto split: option.splits)
qed








section \<open>The loops, one field at a time\<close>


lemma toObject_loop_Cons:
  "toObject_loop ((name, f) # rest) buf result =
     (case decode_field f buf of
        Throw e \<Rightarrow> Throw e
      | Unmodelled \<Rightarrow> Unmodelled
      | Ok v \<Rightarrow> toObject_loop rest buf (AList.update name v result))"
proof (cases f)
  case (Field ty sz off ib pos)
  show ?thesis
  proof (cases ty)
    case (TypeName t)
    then show ?thesis using Field by (simp add: decode_field_def)
  next
    case (TypeStruct s)
    then show ?thesis using Field by (simp add: decode_field_def)
  qed
qed


lemma toObject_Struct: "toObject s buf = toObject_loop (schema s) buf []"
  by (cases s) simp



section \<open>What a field changes and what it reads\<close>




section \<open>The round trip of one field\<close>





section \<open>The round trip of a list of fields\<close>










section \<open>The fields of a compiled layout\<close>

lemma compiled_fields:
  assumes "wellformed_schema sch" "new_Struct sch = Ok s"
  shows "map fst (schema s) = map fst sch"
    and "distinct (map fst (schema s))"
    and "sorted_wrt (\<lambda>x y. span_end (snd x) \<le> span_start (snd y)) (schema s)"
    and "\<forall>nf \<in> set (schema s). field_ok (snd nf) \<and> span_end (snd nf) \<le> 8 * struct_size s \<and>
           (\<forall>inner. ftype (snd nf) = TypeStruct inner \<longrightarrow> (fst nf, Nested inner) \<in> set sch)"
proof -
  let ?acc = "\<lparr>bits = 0, bytes = 0\<rparr>"
  obtain ps where
    ps: "list_all2 (\<lambda>ne np. fst np = fst ne \<and> parseField (snd ne) = Ok (snd np)) sch ps"
    and w: "widths_ok ps"
    and sch: "schema s = fst (placed ?acc ps)"
    and sz: "struct_size s = final_size (snd (placed ?acc ps))"
    using new_Struct_layout [OF assms] by blast
  have "map fst ps = map fst sch"
    using ps by (induction sch ps rule: list_all2_induct) simp_all
  then show names: "map fst (schema s) = map fst sch"
    using sch placed_names by simp
  then show "distinct (map fst (schema s))"
    using assms(1) by (simp add: wellformed_schema_def)
  note sp = placed_spans [of ?acc ps, folded sch]
  show "sorted_wrt (\<lambda>x y. span_end (snd x) \<le> span_start (snd y)) (schema s)"
    using sp w by simp
  have r: "list_all2 recorded ps (schema s)"
    using placed_recorded [of ?acc ps] w sch by simp
  have len: "length ps = length (schema s)" "length sch = length ps"
    using r ps by (simp_all add: list_all2_lengthD)
  have wf: "list_all (\<lambda>ne. wellformed_entry (snd ne)) sch"
    using assms(1) by (simp add: wellformed_schema_def)
  have cur: "cursor (snd (placed ?acc ps)) \<le> 8 * struct_size s"
  proof -
    have "bits (snd (placed ?acc ps)) \<le> 8" using sp w by simp
    then show ?thesis by (simp add: sz final_size_def cursor_def)
  qed
  show "\<forall>nf \<in> set (schema s). field_ok (snd nf) \<and> span_end (snd nf) \<le> 8 * struct_size s \<and>
           (\<forall>inner. ftype (snd nf) = TypeStruct inner \<longrightarrow> (fst nf, Nested inner) \<in> set sch)"
  proof
    fix nf assume nf: "nf \<in> set (schema s)"
    then obtain i where i: "i < length (schema s)" "nf = schema s ! i"
      by (auto simp: in_set_conv_nth)
    obtain n e where ne: "sch ! i = (n, e)" by (cases "sch ! i")
    obtain m p where np: "ps ! i = (m, p)" by (cases "ps ! i")
    obtain k f where kf: "nf = (k, f)" by (cases nf)
    have isch: "i < length sch" "i < length ps" using i(1) len by simp_all
    have "fst (ps ! i) = fst (sch ! i) \<and> parseField (snd (sch ! i)) = Ok (snd (ps ! i))"
      using list_all2_nthD [OF ps isch(1)] .
    then have mn: "m = n" and parse: "parseField e = Ok p" using ne np by simp_all
    have rec: "recorded (m, p) (k, f)"
      using list_all2_nthD2 [OF r i(1)] np kf i(2) by simp
    have "wellformed_entry (snd (sch ! i))"
      using wf isch(1) unfolding list_all_length by blast
    then have "wellformed_entry e" using ne by simp
    then obtain p' where p': "parseField e = Ok p'"
      "pisBits p' \<longrightarrow> 1 \<le> psize p' \<and> psize p' \<le> 8 \<and>
         (ptype p' = TypeName ''Int8'' \<or> ptype p' = TypeName ''UInt8'')"
      "\<not> pisBits p' \<longrightarrow>
         (case e of
            Token t \<Rightarrow> ptype p' = TypeName t \<and> map_of typeSizes t = Some (psize p')
          | FieldInterface k \<Rightarrow> ptype p' = TypeName ''string'' \<and> psize p' = k
          | Nested s \<Rightarrow> ptype p' = TypeStruct s \<and> psize p' = struct_size s)"
      using wellformed_entry_parses by blast
    have pp: "p' = p" using p'(1) parse by simp
    have f: "k = n" "ftype f = ptype p" "fsize f = psize p" "isBits f = pisBits p"
      "if pisBits p then \<exists>q. position f = Some q \<and> q + psize p \<le> 8 else position f = None"
      using rec mn by (auto simp: recorded_def)
    have ok: "field_ok f"
    proof (cases "pisBits p")
      case True
      then show ?thesis using p'(2) pp f by (auto simp: field_ok_def)
    next
      case False
      show ?thesis
      proof (cases e)
        case (Token t)
        then have "ptype p = TypeName t" "map_of typeSizes t = Some (psize p)"
          using p'(3) pp False by simp_all
        then show ?thesis
          using typeSizes_methods [of t "psize p"] f False by (auto simp: field_ok_def)
      next
        case (FieldInterface x)
        then show ?thesis using p'(3) pp False f by (simp add: field_ok_def)
      next
        case (Nested inner)
        then show ?thesis using p'(3) pp False f by (simp add: field_ok_def)
      qed
    qed
    have bound: "span_end f \<le> 8 * struct_size s"
    proof -
      have "span_end (snd nf) \<le> cursor (snd (placed ?acc ps))"
        using sp w nf by simp
      then show ?thesis using cur kf by simp
    qed
    have nest: "(k, Nested inner) \<in> set sch" if "ftype f = TypeStruct inner" for inner
    proof -
      have t: "ptype p = TypeStruct inner" using that f(2) by simp
      then have nb: "\<not> pisBits p" using p'(2) pp by auto
      have "e = Nested inner"
        using p'(3) pp nb t by (cases e) simp_all
      then have "sch ! i = (k, Nested inner)" using ne f(1) by simp
      then show ?thesis using isch(1) by (metis nth_mem)
    qed
    show "field_ok (snd nf) \<and> span_end (snd nf) \<le> 8 * struct_size s \<and>
           (\<forall>inner. ftype (snd nf) = TypeStruct inner \<longrightarrow> (fst nf, Nested inner) \<in> set sch)"
      using ok bound nest kf by simp
  qed
qed


section \<open>The round trip\<close>










section \<open>Fields that the record does not have\<close>






section \<open>Decoding any buffer\<close>

lemma readBitField_Ok:
  assumes "ftype f = TypeName t"
  shows "\<exists>x. readBitField buf f = Ok x"
  using assms by (simp add: readBitField_def processValueForBitfield_def Let_def)

lemma toObject_loop_keys:
  assumes "toObject_loop fs buf res = Ok r" "distinct (map fst fs)"
    "set (map fst fs) \<inter> fst ` set res = {}"
  shows "\<exists>vals. r = JObject (res @ vals) \<and> map fst vals = map fst fs \<and>
           (\<forall>nf \<in> set fs. \<exists>v. decode_field (snd nf) buf = Ok v)"
  using assms
proof (induction fs arbitrary: res)
  case Nil
  then show ?case by simp
next
  case (Cons nf fs)
  obtain name f where nf: "nf = (name, f)" by (cases nf)
  obtain v where v: "decode_field f buf = Ok v"
    "toObject_loop fs buf (AList.update name v res) = Ok r"
    using Cons.prems(1) nf
    by (auto simp: toObject_loop_Cons simp del: toObject_loop.simps split: outcome.splits)
  have fresh: "name \<notin> fst ` set res" using Cons.prems(3) nf by auto
  have u: "AList.update name v res = res @ [(name, v)]" by (rule update_fresh [OF fresh])
  have "set (map fst fs) \<inter> fst ` set (res @ [(name, v)]) = {}"
    using Cons.prems(2,3) nf by auto
  then obtain vals where vals: "r = JObject ((res @ [(name, v)]) @ vals)"
    "map fst vals = map fst fs" "\<forall>nf \<in> set fs. \<exists>v. decode_field (snd nf) buf = Ok v"
    using Cons.IH [of "res @ [(name, v)]"] v(2) u Cons.prems(2) by auto
  have "r = JObject (res @ ((name, v) # vals)) \<and>
        map fst ((name, v) # vals) = map fst (nf # fs) \<and>
        (\<forall>nf \<in> set (nf # fs). \<exists>v. decode_field (snd nf) buf = Ok v)"
    using vals v(1) nf by simp
  then show ?case by blast
qed




section \<open>Size of the buffer, missing fields, and the fields of a decoded record\<close>




lemma compiled_example: "compiled example_struct"
proof (rule compiled.intros)
  show "new_Struct [(''a'', Token ''UInt8:4''), (''b'', Token ''UInt8:4''),
               (''c'', Token ''UInt16LE'')] = Ok example_struct"
    by (rule example_compiles)
  show "wellformed_schema [(''a'', Token ''UInt8:4''), (''b'', Token ''UInt8:4''),
                      (''c'', Token ''UInt16LE'')]"
    by (rule example_wellformed)
  show "\<forall>n inner. (n, Nested inner) \<in> set [(''a'', Token ''UInt8:4''),
      (''b'', Token ''UInt8:4''), (''c'', Token ''UInt16LE'')] \<longrightarrow> compiled inner"
    by simp
qed




section \<open>Buffers that are too short\<close>

lemma primitive_free_decodes_aux:
  "(primitive_free s \<longrightarrow> (\<forall>buf. \<exists>r. toObject s buf = Ok r))"
  "(primitive_free_fields fs \<longrightarrow> (\<forall>buf res. \<exists>r. toObject_loop fs buf res = Ok r))"
proof (induction s and fs rule: primitive_free_primitive_free_fields.induct)
  case (1 flds n)
  then show ?case by simp
next
  case 2
  then show ?case by simp
next
  case (3 name nested sz off ib pos rest)
  show ?case
  proof (intro impI allI)
    fix buf res
    assume p: "primitive_free_fields ((name, Field (TypeStruct nested) sz off ib pos) # rest)"
    then obtain v where v: "toObject nested (subarray buf off (off + sz)) = Ok v"
      using 3 by fastforce
    obtain r where "toObject_loop rest buf (AList.update name v res) = Ok r"
      using 3 p by fastforce
    then show "\<exists>r. toObject_loop ((name, Field (TypeStruct nested) sz off ib pos) # rest)
                  buf res = Ok r"
      using v by simp
  qed
next
  case (4 name t sz off ib pos rest)
  show ?case
  proof (intro impI allI)
    fix buf res
    assume p: "primitive_free_fields ((name, Field (TypeName t) sz off ib pos) # rest)"
    let ?f = "Field (TypeName t) sz off ib pos"
    have "\<exists>v. (if ib then (case readBitField buf ?f of
                          Throw e \<Rightarrow> Throw e
                        | Unmodelled \<Rightarrow> Unmodelled
                        | Ok x \<Rightarrow> Ok (JNumber x))
            else readField buf ?f) = Ok v"
    proof (cases ib)
      case True
      obtain x where "readBitField buf ?f = Ok x"
        using readBitField_Ok [of ?f t buf] by auto
      then show ?thesis using True by simp
    next
      case False
      then have "t = ''string''" using p by simp
      then show ?thesis using False by (simp add: readField_def)
    qed
    then obtain v where v: "(if ib then (case readBitField buf ?f of
                          Throw e \<Rightarrow> Throw e
                        | Unmodelled \<Rightarrow> Unmodelled
                        | Ok x \<Rightarrow> Ok (JNumber x))
            else readField buf ?f) = Ok v" by blast
    obtain r where "toObject_loop rest buf (AList.update name v res) = Ok r"
      using 4 p by fastforce
    then show "\<exists>r. toObject_loop ((name, ?f) # rest) buf res = Ok r"
      using v by simp
  qed
qed

lemma toObject_loop_outcome:
  assumes "\<forall>nf \<in> set fs. decoded_or_range_error (decode_field (snd nf) buf)"
  shows "decoded_or_range_error (toObject_loop fs buf res)"
  using assms
proof (induction fs arbitrary: res)
  case Nil
  then show ?case by (simp add: decoded_or_range_error_def)
next
  case (Cons nf fs)
  obtain name f where nf: "nf = (name, f)" by (cases nf)
  have hd: "decoded_or_range_error (decode_field f buf)" using Cons.prems nf by simp
  have tl: "decoded_or_range_error (toObject_loop fs buf res')" for res'
    using Cons.IH Cons.prems by simp
  show ?case
  proof (cases "decode_field f buf")
    case (Ok v)
    then show ?thesis
      using tl by (simp add: nf toObject_loop_Cons del: toObject_loop.simps)
  next
    case (Throw e)
    then show ?thesis
      using hd by (simp add: nf toObject_loop_Cons decoded_or_range_error_def
          del: toObject_loop.simps)
  next
    case Unmodelled
    then show ?thesis using hd by (simp add: decoded_or_range_error_def)
  qed
qed

lemma compiled_decode_outcome:
  "compiled s \<Longrightarrow> \<forall>buf. decoded_or_range_error (toObject s buf)"
proof (induction rule: compiled.induct)
  case (1 sch s)
  note cf = compiled_fields [OF "1.hyps"(2,1)]
  show ?case
  proof
    fix buf
    have "decoded_or_range_error (decode_field (snd nf) buf)"
      if nf: "nf \<in> set (schema s)" for nf
    proof -
      have ok: "field_ok (snd nf)" using cf(4) nf by blast
      show ?thesis
      proof (cases "ftype (snd nf)")
        case (TypeStruct inner)
        have "(fst nf, Nested inner) \<in> set sch" using cf(4) nf TypeStruct by blast
        then have "\<forall>buf. decoded_or_range_error (toObject inner buf)"
          using "1.IH" by blast
        then show ?thesis using TypeStruct by (simp add: decode_field_def)
      next
        case (TypeName t)
        show ?thesis
        proof (cases "isBits (snd nf)")
          case True
          then show ?thesis
            using readBitField_Ok [OF TypeName, of buf] TypeName
            by (auto simp: decode_field_def decoded_or_range_error_def)
        next
          case False
          show ?thesis
          proof (cases "t = ''string''")
            case True
            then show ?thesis using TypeName False
              by (simp add: decode_field_def readField_def decoded_or_range_error_def)
          next
            case str: False
            then obtain sg little big where
              m: "map_of buffer_methods t = Some (sg, fsize (snd nf), little, big)"
              using ok TypeName False by (auto simp: field_ok_def)
            show ?thesis using TypeName False str m
              by (simp add: decode_field_def readField_def read_int_def boundsError_def
                  decoded_or_range_error_def)
          qed
        qed
      qed
    qed
    then have "decoded_or_range_error (toObject_loop (schema s) buf [])"
      using toObject_loop_outcome by blast
    then show "decoded_or_range_error (toObject s buf)" by (simp add: toObject_Struct)
  qed
qed

lemma primitive_beyond_buffer:
  assumes c: "compiled s" and f: "(name, f) \<in> set (schema s)"
    and p: "\<not> isBits f" "ftype f = TypeName t" "t \<noteq> ''string''"
    and short: "length buf < offset f + fsize f"
  shows "\<exists>m. toObject s buf = Throw (RangeError m)"
proof -
  obtain sch where wf: "wellformed_schema sch" "new_Struct sch = Ok s"
    using c by (auto elim: compiled.cases)
  note cf = compiled_fields [OF wf]
  have ok: "field_ok f" using cf(4) f by fastforce
  then obtain sg little big where
    m: "map_of buffer_methods t = Some (sg, fsize f, little, big)"
    using p by (auto simp: field_ok_def)
  have thr: "\<exists>e. decode_field f buf = Throw e"
    using p m short by (simp add: decode_field_def readField_def read_int_def)
  have "\<not> (\<exists>r. toObject s buf = Ok r)"
  proof
    assume "\<exists>r. toObject s buf = Ok r"
    then obtain r where "toObject_loop (schema s) buf [] = Ok r"
      by (auto simp: toObject_Struct)
    then have "\<exists>vals. r = JObject ([] @ vals) \<and> map fst vals = map fst (schema s) \<and>
           (\<forall>nf \<in> set (schema s). \<exists>v. decode_field (snd nf) buf = Ok v)"
      by (rule toObject_loop_keys) (simp_all add: cf(2))
    then have "\<exists>v. decode_field f buf = Ok v" using f by fastforce
    then show False using thr by auto
  qed
  then show ?thesis
    using compiled_decode_outcome [OF c] by (auto simp: decoded_or_range_error_def)
qed

lemma bitfield_beyond_buffer:
  assumes ok: "field_ok f" "isBits f" and short: "length buf \<le> offset f"
  shows "readBitField buf f = Ok 0"
proof -
  obtain val where val: "readBitField buf f =
       Ok (if ftype f = TypeName ''Int8'' then asIntN (fsize f) val else val)"
    "\<And>j. bit val j = (j < fsize f \<and> buf_bit buf (span_start f + j))"
    using readBitField_val [OF ok] by blast
  have "\<not> buf_bit buf (span_start f + j)" for j
  proof -
    have "offset f \<le> (span_start f + j) div 8"
      using ok(2) by (simp add: span_start_def)
    then show ?thesis using short by (simp add: buf_bit_def)
  qed
  then have "bit val j = bit (0::int) j" for j using val(2) by simp
  then have "val = 0" by (simp add: bit_eq_iff)
  then show ?thesis using val(1) by (simp add: asIntN_def)
qed

text \<open>
  The claim C9 as it is written fails: the layout of \<open>{ a: "UInt8:4", b: "UInt8:4",
  c: "UInt16LE" }\<close> has 3 bytes, and decoding the 1-byte buffer \<open>0x5A\<close> throws, because
  \<open>readUInt16LE\<close> checks its offset against the buffer.
\<close>

theorem short_buffer_throws:
  "compiled example_struct \<and> length [0x5A :: 8 word] < struct_size example_struct \<and>
   toObject example_struct [0x5A] = Throw (RangeError ''ERR_BUFFER_OUT_OF_BOUNDS'')"
proof -
  have a: "length [0x5A :: 8 word] < struct_size example_struct"
    by (simp add: example_struct_def)
  have b: "toObject example_struct [0x5A] = Throw (RangeError ''ERR_BUFFER_OUT_OF_BOUNDS'')"
    unfolding example_struct_def by code_simp
  from compiled_example a b show ?thesis by blast
qed

text \<open>
  C9, amended. \<open>toObject\<close> has no check of the buffer's length. A layout that holds only
  bitfields, text fields and nested layouts of these decodes every buffer without an
  error, however short: a bitfield whose byte lies beyond the buffer reads as 0. But a
  primitive field of a compiled layout that does not lie within the buffer makes
  \<open>toObject\<close> throw a \<open>RangeError\<close> (thrown by the \<open>read\<close> method of \<open>Buffer\<close>), and a
  compiled layout throws nothing else.
\<close>

theorem short_buffer_decode:
  "(\<forall>s buf. primitive_free s \<longrightarrow> (\<exists>r. toObject s buf = Ok r)) \<and>
   (\<forall>f buf. field_ok f \<and> isBits f \<and> length buf \<le> offset f \<longrightarrow> readBitField buf f = Ok 0) \<and>
   (\<forall>s buf name f t.
      compiled s \<and> (name, f) \<in> set (schema s) \<and> \<not> isBits f \<and> ftype f = TypeName t \<and>
      t \<noteq> ''string'' \<and> length buf < offset f + fsize f \<longrightarrow>
        (\<exists>m. toObject s buf = Throw (RangeError m))) \<and>
   (\<forall>s buf. compiled s \<longrightarrow> decoded_or_range_error (toObject s buf))"
proof -
  have a: "\<forall>s buf. primitive_free s \<longrightarrow> (\<exists>r. toObject s buf = Ok r)"
    using primitive_free_decodes_aux(1) by blast
  have b: "\<forall>f buf. field_ok f \<and> isBits f \<and> length buf \<le> offset f \<longrightarrow>
      readBitField buf f = Ok 0"
    using bitfield_beyond_buffer by blast
  have c: "\<forall>s buf name f t.
      compiled s \<and> (name, f) \<in> set (schema s) \<and> \<not> isBits f \<and> ftype f = TypeName t \<and>
      t \<noteq> ''string'' \<and> length buf < offset f + fsize f \<longrightarrow>
        (\<exists>m. toObject s buf = Throw (RangeError m))"
    using primitive_beyond_buffer by blast
  have d: "\<forall>s buf. compiled s \<longrightarrow> decoded_or_range_error (toObject s buf)"
    using compiled_decode_outcome by blast
  from a b c d show ?thesis by (intro conjI)
qed

theorem short_buffer_decode_witness:
  "primitive_free signed4 \<and> toObject signed4 [] = Ok (JObject [(''f'', JNumber 0)]) \<and>
   (\<exists>m. toObject example_struct [0x5A] = Throw (RangeError m))"
proof -
  note t = short_buffer_decode
  note t1 = t [THEN conjunct1, rule_format]
  note t3 = t [THEN conjunct2, THEN conjunct2, THEN conjunct1, rule_format]
  have p: "primitive_free signed4" by (simp add: signed4_def)
  obtain r where r: "toObject signed4 [] = Ok r" using t1 [OF p] by blast
  have "toObject signed4 [] = Ok (JObject [(''f'', JNumber 0)])"
    unfolding signed4_def by code_simp
  then have a: "toObject signed4 [] = Ok (JObject [(''f'', JNumber 0)])" using r by simp
  have fc: "(''c'', Field (TypeName ''UInt16LE'') 2 1 False None) \<in> set (schema example_struct)"
    by (simp add: example_struct_def)
  have b: "\<exists>m. toObject example_struct [0x5A] = Throw (RangeError m)"
    using t3 [of example_struct "''c''" "Field (TypeName ''UInt16LE'') 2 1 False None"
        "''UInt16LE''" "[0x5A]"] compiled_example fc
    by simp
  from p a b show ?thesis by blast
qed


end
